theory Spec2Isabelle
  imports Complex_Main
begin

section \<open>Numbers and strings of the host language\<close>

text \<open>
  The program is JavaScript (\<^verbatim>\<open>src/components/AttentionVisualizer.js\<close>). A number
  is modelled as an exact real or \<open>NaN\<close>: the arithmetic of the model is the arithmetic
  of the reals, so the rounding error of IEEE doubles and the infinities that overflow
  produces are outside the model. \<open>undefined\<close>, which an out-of-range array read
  returns, only ever reaches arithmetic in this program, where it coerces to \<open>NaN\<close>;
  such a read is modelled as \<open>NaN\<close> directly.
\<close>

datatype jsnum = Num real | NaN

fun jadd :: "jsnum \<Rightarrow> jsnum \<Rightarrow> jsnum" where
  "jadd (Num a) (Num b) = Num (a + b)"
| "jadd _ _ = NaN"

fun jsub :: "jsnum \<Rightarrow> jsnum \<Rightarrow> jsnum" where
  "jsub (Num a) (Num b) = Num (a - b)"
| "jsub _ _ = NaN"

fun jmul :: "jsnum \<Rightarrow> jsnum \<Rightarrow> jsnum" where
  "jmul (Num a) (Num b) = Num (a * b)"
| "jmul _ _ = NaN"

text \<open>
  Division by zero gives an infinity or \<open>NaN\<close> in JavaScript. Every divisor of this
  program is \<open>100\<close>, \<open>1000\<close>, \<open>sqrt 2\<close> or a sum of exponentials that contains
  \<open>exp 0\<close>, so the branch is never taken on a number.
\<close>

fun jdiv :: "jsnum \<Rightarrow> jsnum \<Rightarrow> jsnum" where
  "jdiv (Num a) (Num b) = (if b = 0 then NaN else Num (a / b))"
| "jdiv _ _ = NaN"

text \<open>\<^verbatim>\<open>x % 10\<close> on a non-negative integer (a UTF-16 code unit).\<close>

fun jmod10 :: "jsnum \<Rightarrow> jsnum" where
  "jmod10 (Num a) = Num (real_of_int (\<lfloor>a\<rfloor> mod 10) + (a - real_of_int \<lfloor>a\<rfloor>))"
| "jmod10 NaN = NaN"

text \<open>\<^verbatim>\<open>Math.round\<close>: the nearest integer, a tie going towards \<open>+\<infinity>\<close>.\<close>

fun Math_round :: "jsnum \<Rightarrow> jsnum" where
  "Math_round (Num x) = Num (real_of_int \<lfloor>x + 1 / 2\<rfloor>)"
| "Math_round NaN = NaN"

fun Math_exp :: "jsnum \<Rightarrow> jsnum" where
  "Math_exp (Num x) = Num (exp x)"
| "Math_exp NaN = NaN"

fun Math_sqrt :: "jsnum \<Rightarrow> jsnum" where
  "Math_sqrt (Num x) = (if x < 0 then NaN else Num (sqrt x))"
| "Math_sqrt NaN = NaN"

fun jmax :: "jsnum \<Rightarrow> jsnum \<Rightarrow> jsnum" where
  "jmax (Num a) (Num b) = Num (max a b)"
| "jmax _ _ = NaN"

text \<open>
  A string is the list of its UTF-16 code units: \<^verbatim>\<open>length\<close> counts them and
  \<^verbatim>\<open>charCodeAt\<close> reads one.
\<close>

type_synonym jsstring = "nat list"

definition js :: "string \<Rightarrow> jsstring" where
  "js s = map of_char s"

type_synonym row = "jsnum list"
type_synonym matrix = "row list"

text \<open>\<^verbatim>\<open>row[k]\<close>, read for arithmetic.\<close>

definition elt :: "row \<Rightarrow> nat \<Rightarrow> jsnum" where
  "elt r k = (if k < length r then r ! k else NaN)"

datatype error = TypeError

definition bindE :: "error + 'a \<Rightarrow> ('a \<Rightarrow> error + 'b) \<Rightarrow> error + 'b" where
  "bindE m f = (case m of Inl e \<Rightarrow> Inl e | Inr v \<Rightarrow> f v)"

section \<open>Tokenizer\<close>

text \<open>
  \<^verbatim>\<open>const tokens = inputText.trim().split(' ').filter(t => t.length > 0);\<close>

  \<^verbatim>\<open>trim\<close> removes the white space and line terminators of ECMAScript at both ends.
\<close>

definition isWhitespace :: "nat \<Rightarrow> bool" where
  "isWhitespace c \<longleftrightarrow>
     c \<in> {9, 10, 11, 12, 13, 32, 160, 5760, 8232, 8233, 8239, 8287, 12288, 65279}
     \<or> (8192 \<le> c \<and> c \<le> 8202)"

definition trim :: "jsstring \<Rightarrow> jsstring" where
  "trim s = rev (dropWhile isWhitespace (rev (dropWhile isWhitespace s)))"

text \<open>\<^verbatim>\<open>s.split(sep)\<close> for a separator of one code unit; \<^verbatim>\<open>"".split(' ')\<close> is \<^verbatim>\<open>[""]\<close>.\<close>

fun split_js :: "nat \<Rightarrow> jsstring \<Rightarrow> jsstring list" where
  "split_js sep [] = [[]]"
| "split_js sep (c # cs) =
     (if c = sep then [] # split_js sep cs
      else (case split_js sep cs of [] \<Rightarrow> [[c]] | w # ws \<Rightarrow> (c # w) # ws))"

definition tokens :: "jsstring \<Rightarrow> jsstring list" where
  "tokens inputText = filter (\<lambda>t. length t > 0) (split_js 32 (trim inputText))"




section \<open>Embedder\<close>

text \<open>
  \<^verbatim>\<open>
  const embeddings = tokens.length > 0 ? tokens.map((token, i) => {
    const base = [
      Math.sin(i * 0.5) * 0.8 + 0.2,
      Math.cos(i * 0.3) * 0.6 + 0.4,
      token.length * 0.1,
      (token.charCodeAt(0) % 10) * 0.1
    ];
    return base.map(val => Math.round(val * 100) / 100);
  }) : [];
  \<close>
\<close>

definition round2 :: "jsnum \<Rightarrow> jsnum" where
  "round2 val = jdiv (Math_round (jmul val (Num 100))) (Num 100)"

definition charCodeAt0 :: "jsstring \<Rightarrow> jsnum" where
  "charCodeAt0 token = (case token of [] \<Rightarrow> NaN | c # _ \<Rightarrow> Num (real c))"

definition embedToken :: "jsstring \<Rightarrow> nat \<Rightarrow> row" where
  "embedToken token i = map round2
     [Num (sin (real i * 0.5) * 0.8 + 0.2),
      Num (cos (real i * 0.3) * 0.6 + 0.4),
      Num (real (length token) * 0.1),
      jmul (jmod10 (charCodeAt0 token)) (Num 0.1)]"

definition embeddings :: "jsstring list \<Rightarrow> matrix" where
  "embeddings toks =
     (if length toks > 0 then map (\<lambda>(i, token). embedToken token i) (enumerate 0 toks) else [])"

section \<open>Matrix multiplication\<close>

text \<open>
  \<^verbatim>\<open>
  const matMul = (A, B) => {
    if (!A || !B || !A.length || !B.length || !A[0] || !B[0]) return [];
    const result = Array.from({length: A.length}, () =>
      Array.from({length: B[0].length}, () => 0)
    );
    for (let i = 0; i < A.length; i++) {
      for (let j = 0; j < B[0].length; j++) {
        for (let k = 0; k < B.length; k++) {
          result[i][j] += A[i][k] * B[k][j];
        }
      }
    }
    return result.map(row => row.map(val => Math.round(val * 100) / 100));
  };
  \<close>
  An argument is \<open>None\<close> (\<^verbatim>\<open>null\<close> or \<^verbatim>\<open>undefined\<close>) or an array, each of
  whose elements is \<open>None\<close> or a row of numbers. Reading an element of a missing row
  (\<^verbatim>\<open>A[i][k]\<close> with \<^verbatim>\<open>A[i]\<close> undefined) throws a \<^verbatim>\<open>TypeError\<close>.
\<close>

type_synonym jsmatrix = "row option list option"

definition arr :: "matrix \<Rightarrow> jsmatrix" where
  "arr M = Some (map Some M)"

text \<open>The loop over \<open>k\<close>: \<open>Ai\<close> is the row \<^verbatim>\<open>A[i]\<close>, the list holds \<^verbatim>\<open>B[k], B[k+1], ...\<close>.\<close>

fun matMul_k :: "row \<Rightarrow> row option list \<Rightarrow> nat \<Rightarrow> nat \<Rightarrow> jsnum \<Rightarrow> error + jsnum" where
  "matMul_k Ai [] k j acc = Inr acc"
| "matMul_k Ai (None # Bs) k j acc = Inl TypeError"
| "matMul_k Ai (Some Bk # Bs) k j acc =
     matMul_k Ai Bs (Suc k) j (jadd acc (jmul (elt Ai k) (elt Bk j)))"

text \<open>The loop over \<open>j\<close>, for the columns still to do.\<close>

fun matMul_j :: "row option \<Rightarrow> row option list \<Rightarrow> nat list \<Rightarrow> error + row" where
  "matMul_j Ai B [] = Inr []"
| "matMul_j None B (j # rest) = Inl TypeError"
| "matMul_j (Some Ai) B (j # rest) =
     bindE (matMul_k Ai B 0 j (Num 0)) (\<lambda>v.
     bindE (matMul_j (Some Ai) B rest) (\<lambda>vs. Inr (v # vs)))"

text \<open>The loop over \<open>i\<close>; \<open>n\<close> is \<^verbatim>\<open>B[0].length\<close>.\<close>

fun matMul_i :: "row option list \<Rightarrow> row option list \<Rightarrow> nat \<Rightarrow> error + matrix" where
  "matMul_i [] B n = Inr []"
| "matMul_i (Ai # As) B n =
     bindE (matMul_j Ai B [0..<n]) (\<lambda>r.
     bindE (matMul_i As B n) (\<lambda>rs. Inr (r # rs)))"

definition matMul :: "jsmatrix \<Rightarrow> jsmatrix \<Rightarrow> error + matrix" where
  "matMul A B =
     (case (A, B) of
        (Some (Some A0 # As), Some (Some B0 # Bs)) \<Rightarrow>
          bindE (matMul_i (Some A0 # As) (Some B0 # Bs) (length B0))
            (\<lambda>result. Inr (map (map round2) result))
      | _ \<Rightarrow> Inr [])"

section \<open>The attention pipeline\<close>

definition dK :: real where "dK = 2"

definition WQ :: matrix where
  "WQ = map (map Num) [[0.5, -0.3], [0.2, 0.8], [-0.4, 0.6], [0.7, -0.1]]"

definition WK :: matrix where
  "WK = map (map Num) [[0.3, 0.9], [-0.2, 0.4], [0.8, -0.5], [0.1, 0.7]]"

definition WV :: matrix where
  "WV = map (map Num) [[0.6, 0.2], [0.4, -0.8], [-0.3, 0.5], [0.9, 0.1]]"

text \<open>
  \<^verbatim>\<open>const Q = embeddings.length > 0 ? matMul(embeddings, WQ) : [];\<close> and likewise
  \<open>K\<close> and \<open>V\<close>.
\<close>

definition project :: "matrix \<Rightarrow> matrix \<Rightarrow> error + matrix" where
  "project emb W = (if length emb > 0 then matMul (arr emb) (arr W) else Inr [])"

text \<open>
  \<^verbatim>\<open>
  const scores = Q.length > 0 && K.length > 0 && K[0]
    ? matMul(Q, K[0].map((_, i) => K.map(row => row[i]))) : [];
  \<close>
  \<open>K\<close> is an array of arrays, so \<^verbatim>\<open>K[0]\<close> is truthy whenever \<open>K\<close> is not empty.
\<close>

definition transposeK :: "matrix \<Rightarrow> matrix" where
  "transposeK K = (case K of [] \<Rightarrow> [] | K0 # _ \<Rightarrow> map (\<lambda>i. map (\<lambda>r. elt r i) K) [0..<length K0])"

definition scores_of :: "matrix \<Rightarrow> matrix \<Rightarrow> error + matrix" where
  "scores_of Q K =
     (if length Q > 0 \<and> length K > 0 then matMul (arr Q) (arr (transposeK K)) else Inr [])"

text \<open>
  \<^verbatim>\<open>
  const scaledScores = scores.length > 0 ? scores.map(row =>
    row.map(val => Math.round(val / Math.sqrt(dK) * 100) / 100)
  ) : [];
  \<close>
\<close>

definition scale_score :: "jsnum \<Rightarrow> jsnum" where
  "scale_score val = jdiv (Math_round (jmul (jdiv val (Math_sqrt (Num dK))) (Num 100))) (Num 100)"

definition scaledScores_of :: "matrix \<Rightarrow> matrix" where
  "scaledScores_of scores = (if length scores > 0 then map (map scale_score) scores else [])"

text \<open>
  \<^verbatim>\<open>
  const softmax = (arr) => {
    if (!arr.length) return [];
    const maxVal = Math.max(...arr);
    const exp = arr.map(x => Math.exp(x - maxVal));
    const sum = exp.reduce((a, b) => a + b, 0);
    return exp.map(x => Math.round(x / sum * 1000) / 1000);
  };
  \<close>
\<close>

definition round3_of :: "jsnum \<Rightarrow> jsnum \<Rightarrow> jsnum" where
  "round3_of sumExp x = jdiv (Math_round (jmul (jdiv x sumExp) (Num 1000))) (Num 1000)"

fun softmax :: "row \<Rightarrow> row" where
  "softmax [] = []"
| "softmax (x # xs) =
     (let maxVal = foldl jmax x xs;
          exps = map (\<lambda>x. Math_exp (jsub x maxVal)) (x # xs);
          sumExp = foldl jadd (Num 0) exps
      in map (round3_of sumExp) exps)"

definition attentionWeights_of :: "matrix \<Rightarrow> matrix" where
  "attentionWeights_of scaledScores =
     (if length scaledScores > 0 then map softmax scaledScores else [])"

text \<open>\<^verbatim>\<open>const output = attentionWeights.length > 0 ? matMul(attentionWeights, V) : [];\<close>\<close>

definition output_of :: "matrix \<Rightarrow> matrix \<Rightarrow> error + matrix" where
  "output_of attentionWeights V =
     (if length attentionWeights > 0 then matMul (arr attentionWeights) (arr V) else Inr [])"

record stages =
  s_tokens :: "jsstring list"
  s_embeddings :: matrix
  s_Q :: matrix
  s_K :: matrix
  s_V :: matrix
  s_scores :: matrix
  s_scaledScores :: matrix
  s_attentionWeights :: matrix
  s_output :: matrix

text \<open>
  One pass of the component body over the input text: every stage in the order of the
  source, an exception of any stage ending the pass.
\<close>

definition attention :: "jsstring \<Rightarrow> error + stages" where
  "attention inputText =
     (let toks = tokens inputText;
          emb = embeddings toks
      in bindE (project emb WQ) (\<lambda>Q.
         bindE (project emb WK) (\<lambda>K.
         bindE (project emb WV) (\<lambda>V.
         bindE (scores_of Q K) (\<lambda>scores.
           let scaledScores = scaledScores_of scores;
               attentionWeights = attentionWeights_of scaledScores
           in bindE (output_of attentionWeights V) (\<lambda>output.
              Inr \<lparr>s_tokens = toks, s_embeddings = emb, s_Q = Q, s_K = K, s_V = V,
                   s_scores = scores, s_scaledScores = scaledScores,
                   s_attentionWeights = attentionWeights, s_output = output\<rparr>))))))"

section \<open>Auxiliary functions for stating the results\<close>

text \<open>
  The element that the loop over \<open>k\<close> accumulates into \<^verbatim>\<open>result[i][j]\<close> when every row
  is present, and the matrix that \<open>matMul\<close> then returns.
\<close>

fun dot_from :: "row \<Rightarrow> matrix \<Rightarrow> nat \<Rightarrow> nat \<Rightarrow> jsnum \<Rightarrow> jsnum" where
  "dot_from Ai [] k j acc = acc"
| "dot_from Ai (Bk # Bs) k j acc =
     dot_from Ai Bs (Suc k) j (jadd acc (jmul (elt Ai k) (elt Bk j)))"

definition mmul :: "matrix \<Rightarrow> matrix \<Rightarrow> matrix" where
  "mmul A B = (case B of [] \<Rightarrow> [] | B0 # _ \<Rightarrow>
      map (\<lambda>Ai. map (\<lambda>j. round2 (dot_from Ai B 0 j (Num 0))) [0..<length B0]) A)"

text \<open>
  Rounding a real to \<open>d\<close> decimal places, a tie going up: what
  \<^verbatim>\<open>Math.round(x * 10^d) / 10^d\<close> is on a number.
\<close>

definition half_up :: "nat \<Rightarrow> real \<Rightarrow> real" where
  "half_up d x = real_of_int \<lfloor>x * 10 ^ d + 1 / 2\<rfloor> / 10 ^ d"

section \<open>Attention-story summarizer\<close>

text \<open>
  \<^verbatim>\<open>
  const generateAttentionStory = (word, allTokens, attentionRow, wordIndex) => {
    if (!attentionRow || attentionRow.length === 0 || !allTokens || allTokens.length === 0) {
      return `"${word}" is still calculating its attention patterns...`;
    }
    const sortedAttention = attentionRow
      .map((weight, idx) => ({
        weight: weight || 0,
        idx,
        token: allTokens[idx] || 'unknown'
      }))
      .filter(item => item.token !== 'unknown')
      .sort((a, b) => b.weight - a.weight);
    if (sortedAttention.length < 2) {
      return `"${word}" is still calculating its attention patterns...`;
    }
    const topAttention = sortedAttention.slice(0, 3);
    if (topAttention[0].idx === wordIndex) {
      return `"${word}" is mostly focused on itself (${Math.round(topAttention[0].weight * 100)}%), but also pays some attention to "${topAttention[1].token}" (${Math.round(topAttention[1].weight * 100)}%).`;
    } else {
      return `"${word}" is most interested in "${topAttention[0].token}" (${Math.round(topAttention[0].weight * 100)}% of its attention), followed by "${topAttention[1].token}" (${Math.round(topAttention[1].weight * 100)}%).`;
    }
  };
  \<close>
  \<^verbatim>\<open>weight || 0\<close> turns \<open>NaN\<close> into 0, and \<^verbatim>\<open>allTokens[idx] || 'unknown'\<close> turns a
  missing or empty token into \<^verbatim>\<open>'unknown'\<close>. \<^verbatim>\<open>Array.prototype.sort\<close> is stable, and
  the comparator orders by descending weight: it is the stable sort by the key
  \<open>- weight\<close>. A rounded percentage prints as a decimal integer (the notation of
  JavaScript below \<open>10\<^sup>2\<^sup>1\<close>).
\<close>

record item =
  weight :: real
  idx :: nat
  token :: jsstring












text \<open>
  The indices of the row that carry a valid entry: a token that is present, not empty
  and not the word \<^verbatim>\<open>unknown\<close>.
\<close>

definition validIndices :: "jsstring list \<Rightarrow> row \<Rightarrow> nat list" where
  "validIndices allTokens attentionRow =
     filter (\<lambda>i. i < length allTokens \<and> allTokens ! i \<noteq> [] \<and> allTokens ! i \<noteq> js ''unknown'')
       [0..<length attentionRow]"

section \<open>The sentence \<^verbatim>\<open>This boy sees a cat\<close>\<close>

text \<open>
  The embeddings and the keys of the five tokens of \<^verbatim>\<open>This boy sees a cat\<close>, written
  out; that the pipeline computes them is proved below.
\<close>

definition sentence_embeddings :: matrix where
  "sentence_embeddings =
     [[Num 0.2, Num 1, Num 0.4, Num 0.4], [Num 0.58, Num 0.97, Num 0.3, Num 0.8],
      [Num 0.87, Num 0.9, Num 0.4, Num 0.5], [Num 1, Num 0.77, Num 0.1, Num 0.7],
      [Num 0.93, Num 0.62, Num 0.3, Num 0.9]]"

definition sentence_keys :: matrix where
  "sentence_keys =
     [[Num 0.22, Num 0.66], [Num 0.3, Num 1.32], [Num 0.45, Num 1.29], [Num 0.3, Num 1.65],
      [Num 0.49, Num 1.57]]"

section \<open>The embedder in the words of the specification\<close>




section \<open>Numbers in double precision\<close>

text \<open>
  A JavaScript number is an IEEE 754 binary64 value. The definitions of this part
  compute as the program does: a finite value is the real number it denotes, every
  arithmetic operation returns the exact result rounded to the nearest double (a tie
  going to the even significand), a result beyond the largest double is an infinity,
  and \<open>NaN\<close> and the infinities follow the rules of IEEE 754. The two zeros are
  identified: they are equal under \<^verbatim>\<open>===\<close>, and no divisor of this program
  can be a negative zero.
\<close>

datatype double = Dbl real | PosInf | NegInf | NotANumber

definition pow2 :: "int \<Rightarrow> real" where
  "pow2 e = (if 0 \<le> e then 2 ^ nat e else 1 / 2 ^ nat (- e))"

text \<open>The binary exponent of a positive real: \<open>2 ^ ilog2 x \<le> x < 2 ^ (ilog2 x + 1)\<close>.\<close>

function ilog2 :: "real \<Rightarrow> int" where
  "ilog2 x = (if x \<le> 0 then 0 else if 2 \<le> x then ilog2 (x / 2) + 1
              else if x < 1 then ilog2 (x * 2) - 1 else 0)"
  by pat_completeness auto
termination
proof (relation "measure (\<lambda>x. 2 * nat \<lceil>1 / x\<rceil> + nat \<lfloor>x\<rfloor>)", goal_cases)
  case 1
  then show ?case by simp
next
  case (2 x)
  then have "\<lceil>1 / (x / 2)\<rceil> = 1" "\<lceil>1 / x\<rceil> = 1"
    by (auto simp: ceiling_eq_iff field_simps)
  moreover have "\<lfloor>x / 2\<rfloor> < \<lfloor>x\<rfloor>"
    using 2 by linarith
  moreover have "0 < \<lfloor>x\<rfloor>" using 2 by linarith
  ultimately show ?case by simp
next
  case (3 x)
  have x: "0 < x" "x < 1" using 3 by auto
  then have y: "1 < 1 / x" by simp
  have "\<lceil>1 / (x * 2)\<rceil> < \<lceil>1 / x\<rceil>"
  proof -
    define z where "z = 1 / x"
    define n where "n = \<lceil>z\<rceil>"
    have z1: "1 < z" using y by (simp only: z_def)
    have "z \<le> of_int n" unfolding n_def by linarith
    moreover have "2 \<le> n" unfolding n_def using z1 by linarith
    then have "(2::real) \<le> of_int n" by linarith
    ultimately have "z / 2 \<le> of_int n - 1" by linarith
    then have "z / 2 \<le> of_int (n - 1)" by (simp only: of_int_diff of_int_1)
    then have "\<lceil>z / 2\<rceil> \<le> n - 1" by (simp only: ceiling_le_iff)
    moreover have e: "1 / (x * 2) = z / 2" unfolding z_def by (simp only: divide_divide_eq_left)
    have "\<lceil>1 / (x * 2)\<rceil> = \<lceil>z / 2\<rceil>" by (simp only: e)
    moreover have "\<lceil>1 / x\<rceil> = n" by (simp only: n_def z_def)
    ultimately show ?thesis by linarith
  qed
  moreover have "0 < \<lceil>1 / (x * 2)\<rceil>" using x by (simp add: field_simps)
  moreover have "\<lfloor>x\<rfloor> = 0" using x by (simp add: floor_eq_iff)
  moreover have "\<lfloor>x * 2\<rfloor> \<le> 1" using x by (simp add: floor_le_iff)
  moreover have "0 \<le> \<lfloor>x * 2\<rfloor>" using x by simp
  ultimately have "2 * nat \<lceil>1 / (x * 2)\<rceil> + nat \<lfloor>x * 2\<rfloor> < 2 * nat \<lceil>1 / x\<rceil> + nat \<lfloor>x\<rfloor>"
    by linarith
  then show ?case by simp
qed

text \<open>The nearest integer, a tie going to the even one.\<close>

definition nearest_even :: "int \<Rightarrow> real \<Rightarrow> int" where
  "nearest_even f d =
     (if d < 1 / 2 then f else if 1 / 2 < d then f + 1 else if even f then f else f + 1)"

definition rne :: "real \<Rightarrow> int" where
  "rne r = nearest_even \<lfloor>r\<rfloor> (r - of_int \<lfloor>r\<rfloor>)"

text \<open>Rounding a real to a multiple of \<open>2 ^ q\<close>.\<close>

definition quantize :: "int \<Rightarrow> real \<Rightarrow> real" where
  "quantize q x = of_int (rne (x / pow2 q)) * pow2 q"

text \<open>
  Rounding a real to 53 significant bits, with the exponent no smaller than that of
  the subnormal numbers: the unit in the last place of \<open>x\<close> is \<open>2 ^ q\<close> for
  \<open>q = max (ilog2 \<bar>x\<bar>) (- 1022) - 52\<close>.
\<close>

definition rnd :: "real \<Rightarrow> real" where
  "rnd x = (if x = 0 then 0 else quantize (max (ilog2 \<bar>x\<bar>) (- 1022) - 52) x)"

text \<open>A rounded result beyond the largest double is an infinity.\<close>

definition finite_or_infinity :: "real \<Rightarrow> double" where
  "finite_or_infinity y =
     (if 2 ^ 1024 \<le> y then PosInf else if y \<le> - (2 ^ 1024) then NegInf else Dbl y)"

text \<open>
  The double nearest to a real. A numeric literal of the source denotes the double
  nearest to its decimal value: \<^verbatim>\<open>0.1\<close> is \<open>dbl 0.1\<close>. An integer below \<open>2\<^sup>5\<^sup>3\<close> is a
  double as it is.
\<close>

definition dbl :: "real \<Rightarrow> double" where
  "dbl x = finite_or_infinity (rnd x)"

text \<open>The infinity of a sign, \<open>NaN\<close> for no sign (\<^verbatim>\<open>0 * Infinity\<close>, \<^verbatim>\<open>0 / 0\<close>).\<close>

definition infinity_of :: "real \<Rightarrow> double" where
  "infinity_of s = (if 0 < s then PosInf else if s < 0 then NegInf else NotANumber)"

fun sign64 :: "double \<Rightarrow> real" where
  "sign64 (Dbl a) = sgn a"
| "sign64 PosInf = 1"
| "sign64 NegInf = - 1"
| "sign64 NotANumber = 0"

fun add64 :: "double \<Rightarrow> double \<Rightarrow> double" where
  "add64 (Dbl a) (Dbl b) = dbl (a + b)"
| "add64 NotANumber _ = NotANumber"
| "add64 _ NotANumber = NotANumber"
| "add64 PosInf NegInf = NotANumber"
| "add64 NegInf PosInf = NotANumber"
| "add64 PosInf _ = PosInf"
| "add64 _ PosInf = PosInf"
| "add64 NegInf _ = NegInf"
| "add64 _ NegInf = NegInf"

fun neg64 :: "double \<Rightarrow> double" where
  "neg64 (Dbl a) = Dbl (- a)"
| "neg64 PosInf = NegInf"
| "neg64 NegInf = PosInf"
| "neg64 NotANumber = NotANumber"

definition sub64 :: "double \<Rightarrow> double \<Rightarrow> double" where
  "sub64 x y = add64 x (neg64 y)"

definition mul64 :: "double \<Rightarrow> double \<Rightarrow> double" where
  "mul64 x y =
     (case (x, y) of
        (Dbl a, Dbl b) \<Rightarrow> dbl (a * b)
      | (NotANumber, _) \<Rightarrow> NotANumber
      | (_, NotANumber) \<Rightarrow> NotANumber
      | _ \<Rightarrow> infinity_of (sign64 x * sign64 y))"

text \<open>
  Division: a finite number divided by zero is the infinity of its sign
  (\<open>NaN\<close> for \<^verbatim>\<open>0 / 0\<close>), and divided by an infinity it is zero.
\<close>

definition div64 :: "double \<Rightarrow> double \<Rightarrow> double" where
  "div64 x y =
     (case (x, y) of
        (Dbl a, Dbl b) \<Rightarrow> (if b = 0 then infinity_of a else dbl (a / b))
      | (NotANumber, _) \<Rightarrow> NotANumber
      | (_, NotANumber) \<Rightarrow> NotANumber
      | (Dbl a, _) \<Rightarrow> Dbl 0
      | (_, Dbl b) \<Rightarrow> infinity_of (sign64 x * (if b < 0 then - 1 else 1))
      | _ \<Rightarrow> NotANumber)"

text \<open>
  \<^verbatim>\<open>Math.round\<close>: the integer nearest to a finite number, a tie going towards
  \<open>+\<infinity>\<close>; it is exact, an integer of that size being a double.
\<close>

fun Math_round64 :: "double \<Rightarrow> double" where
  "Math_round64 (Dbl x) = Dbl (of_int \<lfloor>x + 1 / 2\<rfloor>)"
| "Math_round64 v = v"

text \<open>\<^verbatim>\<open>Math.max\<close> of two numbers.\<close>

fun max64 :: "double \<Rightarrow> double \<Rightarrow> double" where
  "max64 (Dbl a) (Dbl b) = Dbl (max a b)"
| "max64 NotANumber _ = NotANumber"
| "max64 _ NotANumber = NotANumber"
| "max64 PosInf _ = PosInf"
| "max64 _ PosInf = PosInf"
| "max64 NegInf v = v"
| "max64 v NegInf = v"

text \<open>\<^verbatim>\<open>Math.sqrt\<close>, the square root correctly rounded (an IEEE 754 operation).\<close>

fun Math_sqrt64 :: "double \<Rightarrow> double" where
  "Math_sqrt64 (Dbl x) = (if x < 0 then NotANumber else dbl (sqrt x))"
| "Math_sqrt64 PosInf = PosInf"
| "Math_sqrt64 _ = NotANumber"

text \<open>\<^verbatim>\<open>x % 10\<close>: the remainder has the sign of \<open>x\<close> and is exact.\<close>

fun mod10_64 :: "double \<Rightarrow> double" where
  "mod10_64 (Dbl a) = Dbl (a - 10 * sgn a * of_int \<lfloor>\<bar>a\<bar> / 10\<rfloor>)"
| "mod10_64 _ = NotANumber"

text \<open>
  \<^verbatim>\<open>Math.sin\<close>, \<^verbatim>\<open>Math.cos\<close> and \<^verbatim>\<open>Math.exp\<close> are implementation-approximated in
  ECMAScript: an engine returns a double close to the exact value, not a prescribed
  one. The model takes the three functions of the engine as a parameter, on finite
  arguments; on \<open>NaN\<close> and the infinities the language fixes the result.
\<close>

record libm =
  sin_of :: "real \<Rightarrow> real"
  cos_of :: "real \<Rightarrow> real"
  exp_of :: "real \<Rightarrow> double"

fun Math_sin64 :: "libm \<Rightarrow> double \<Rightarrow> double" where
  "Math_sin64 L (Dbl x) = Dbl (sin_of L x)"
| "Math_sin64 L _ = NotANumber"

fun Math_cos64 :: "libm \<Rightarrow> double \<Rightarrow> double" where
  "Math_cos64 L (Dbl x) = Dbl (cos_of L x)"
| "Math_cos64 L _ = NotANumber"

fun Math_exp64 :: "libm \<Rightarrow> double \<Rightarrow> double" where
  "Math_exp64 L (Dbl x) = exp_of L x"
| "Math_exp64 L PosInf = PosInf"
| "Math_exp64 L NegInf = Dbl 0"
| "Math_exp64 L NotANumber = NotANumber"

text \<open>The functions that return the exact value correctly rounded.\<close>

definition correctly_rounded :: libm where
  "correctly_rounded =
     \<lparr>sin_of = (\<lambda>x. rnd (sin x)), cos_of = (\<lambda>x. rnd (cos x)), exp_of = (\<lambda>x. dbl (exp x))\<rparr>"

text \<open>
  An engine whose functions are within \<open>2\<^sup>-\<^sup>5\<^sup>0\<close> of the exact value: eight units in
  the last place of a result near 1. For \<^verbatim>\<open>Math.exp\<close> the bound is asked on the
  arguments that \<open>softmax\<close> passes, which are never positive.
\<close>

definition accurate :: "libm \<Rightarrow> bool" where
  "accurate L \<longleftrightarrow>
     (\<forall>x. \<bar>sin_of L x - sin x\<bar> \<le> 1 / 2 ^ 50 \<and> \<bar>cos_of L x - cos x\<bar> \<le> 1 / 2 ^ 50)
     \<and> (\<forall>x \<le> 0. \<exists>y. exp_of L x = Dbl y \<and> \<bar>y - exp x\<bar> \<le> 1 / 2 ^ 50)"

text \<open>\<^verbatim>\<open>Math.round(val * 100) / 100\<close>.\<close>

definition round2_64 :: "double \<Rightarrow> double" where
  "round2_64 val = div64 (Math_round64 (mul64 val (Dbl 100))) (Dbl 100)"

section \<open>Matrix multiplication in double precision\<close>

text \<open>
  The source of \<open>matMul\<close> is quoted above. An argument is \<open>None\<close> (\<^verbatim>\<open>null\<close> or
  \<^verbatim>\<open>undefined\<close>) or an array, each of whose rows is \<open>None\<close> or an array of values. A
  value is a number, \<^verbatim>\<open>undefined\<close> (which an array hole and a read beyond the end of
  a row also give), a BigInt or a Symbol. In \<^verbatim>\<open>result[i][j] += A[i][k] * B[k][j]\<close>
  an \<^verbatim>\<open>undefined\<close> operand becomes \<open>NaN\<close>, and a BigInt or a Symbol operand throws a
  \<^verbatim>\<open>TypeError\<close>: arithmetic on a Symbol throws, the product of a BigInt and a number
  throws, and the product of two BigInts is a BigInt, which the addition to the number
  accumulated so far rejects. \<^verbatim>\<open>null\<close>, booleans and strings coerce to numbers and
  are represented by them; objects, whose coercion runs code of their own, are outside
  the model.
\<close>

datatype jsval = Number double | Undefined | BigInt int | Symbol

type_synonym jsarray = "jsval list option list option"

fun toNumber :: "jsval \<Rightarrow> double option" where
  "toNumber (Number d) = Some d"
| "toNumber Undefined = Some NotANumber"
| "toNumber (BigInt n) = None"
| "toNumber Symbol = None"

text \<open>\<^verbatim>\<open>row[k]\<close>.\<close>

definition at64 :: "jsval list \<Rightarrow> nat \<Rightarrow> jsval" where
  "at64 r k = (if k < length r then r ! k else Undefined)"

text \<open>\<^verbatim>\<open>acc + a * b\<close> for the number \<open>acc\<close>.\<close>

definition mulAdd :: "double \<Rightarrow> jsval \<Rightarrow> jsval \<Rightarrow> error + double" where
  "mulAdd acc a b =
     (case (toNumber a, toNumber b) of
        (Some x, Some y) \<Rightarrow> Inr (add64 acc (mul64 x y))
      | _ \<Rightarrow> Inl TypeError)"

fun matMul64_k :: "jsval list \<Rightarrow> jsval list option list \<Rightarrow> nat \<Rightarrow> nat \<Rightarrow> double \<Rightarrow> error + double" where
  "matMul64_k Ai [] k j acc = Inr acc"
| "matMul64_k Ai (None # Bs) k j acc = Inl TypeError"
| "matMul64_k Ai (Some Bk # Bs) k j acc =
     bindE (mulAdd acc (at64 Ai k) (at64 Bk j)) (\<lambda>acc'. matMul64_k Ai Bs (Suc k) j acc')"

fun matMul64_j :: "jsval list option \<Rightarrow> jsval list option list \<Rightarrow> nat list \<Rightarrow> error + double list" where
  "matMul64_j Ai B [] = Inr []"
| "matMul64_j None B (j # rest) = Inl TypeError"
| "matMul64_j (Some Ai) B (j # rest) =
     bindE (matMul64_k Ai B 0 j (Dbl 0)) (\<lambda>v.
     bindE (matMul64_j (Some Ai) B rest) (\<lambda>vs. Inr (v # vs)))"

fun matMul64_i :: "jsval list option list \<Rightarrow> jsval list option list \<Rightarrow> nat \<Rightarrow> error + double list list" where
  "matMul64_i [] B n = Inr []"
| "matMul64_i (Ai # As) B n =
     bindE (matMul64_j Ai B [0..<n]) (\<lambda>r.
     bindE (matMul64_i As B n) (\<lambda>rs. Inr (r # rs)))"

definition matMul64 :: "jsarray \<Rightarrow> jsarray \<Rightarrow> error + double list list" where
  "matMul64 A B =
     (case (A, B) of
        (Some (Some A0 # As), Some (Some B0 # Bs)) \<Rightarrow>
          bindE (matMul64_i (Some A0 # As) (Some B0 # Bs) (length B0))
            (\<lambda>result. Inr (map (map round2_64) result))
      | _ \<Rightarrow> Inr [])"

text \<open>An array of rows of numbers, as an argument.\<close>

definition rows64 :: "double list list \<Rightarrow> jsval list list" where
  "rows64 M = map (map Number) M"

definition arr64 :: "jsval list list \<Rightarrow> jsarray" where
  "arr64 M = Some (map Some M)"

text \<open>
  The number that an operand of the multiplication coerces to, and the value that the
  loop over \<open>k\<close> leaves in \<^verbatim>\<open>result[i][j]\<close> when nothing throws: the products
  \<^verbatim>\<open>A[i][k] * B[k][j]\<close> for \<open>k\<close> below \<^verbatim>\<open>B.length\<close>, added one after the other to 0,
  each product and each sum rounded to a double.
\<close>

definition num64 :: "jsval \<Rightarrow> double" where
  "num64 v = (case toNumber v of Some d \<Rightarrow> d | None \<Rightarrow> NotANumber)"

definition cell64 :: "jsval list \<Rightarrow> jsval list list \<Rightarrow> nat \<Rightarrow> double" where
  "cell64 Ai B j =
     foldl (\<lambda>acc k. add64 acc (mul64 (num64 (at64 Ai k)) (num64 (at64 (B ! k) j)))) (Dbl 0)
       [0..<length B]"

definition numeric :: "jsval \<Rightarrow> bool" where
  "numeric v \<longleftrightarrow> v = Undefined \<or> (\<exists>d. v = Number d)"

declare ilog2.simps [simp del]

section \<open>The attention pipeline in double precision\<close>

text \<open>
  The stages of the component body, quoted with the definitions of the first part, over
  doubles. \<^verbatim>\<open>i * 0.5\<close> multiplies the index, an integer, by the double of the literal.
\<close>

definition charCodeAt0_64 :: "jsstring \<Rightarrow> double" where
  "charCodeAt0_64 tok = (case tok of [] \<Rightarrow> NotANumber | c # _ \<Rightarrow> Dbl (real c))"

definition embedToken64 :: "libm \<Rightarrow> jsstring \<Rightarrow> nat \<Rightarrow> double list" where
  "embedToken64 L tok i = map round2_64
     [add64 (mul64 (Math_sin64 L (mul64 (Dbl (real i)) (dbl 0.5))) (dbl 0.8)) (dbl 0.2),
      add64 (mul64 (Math_cos64 L (mul64 (Dbl (real i)) (dbl 0.3))) (dbl 0.6)) (dbl 0.4),
      mul64 (Dbl (real (length tok))) (dbl 0.1),
      mul64 (mod10_64 (charCodeAt0_64 tok)) (dbl 0.1)]"

definition embeddings64 :: "libm \<Rightarrow> jsstring list \<Rightarrow> double list list" where
  "embeddings64 L toks =
     (if length toks > 0 then map (\<lambda>(i, tok). embedToken64 L tok i) (enumerate 0 toks)
      else [])"

definition WQ64 :: "double list list" where
  "WQ64 = map (map dbl) [[0.5, -0.3], [0.2, 0.8], [-0.4, 0.6], [0.7, -0.1]]"

definition WK64 :: "double list list" where
  "WK64 = map (map dbl) [[0.3, 0.9], [-0.2, 0.4], [0.8, -0.5], [0.1, 0.7]]"

definition WV64 :: "double list list" where
  "WV64 = map (map dbl) [[0.6, 0.2], [0.4, -0.8], [-0.3, 0.5], [0.9, 0.1]]"

definition project64 :: "double list list \<Rightarrow> double list list \<Rightarrow> error + double list list" where
  "project64 emb W =
     (if length emb > 0 then matMul64 (arr64 (rows64 emb)) (arr64 (rows64 W)) else Inr [])"

text \<open>
  \<^verbatim>\<open>K[0].map((_, i) => K.map(row => row[i]))\<close>: a read beyond the end of a row gives
  \<^verbatim>\<open>undefined\<close>.
\<close>

definition transposeK64 :: "double list list \<Rightarrow> jsval list list" where
  "transposeK64 K =
     (case K of [] \<Rightarrow> []
      | K0 # _ \<Rightarrow> map (\<lambda>i. map (\<lambda>r. at64 (map Number r) i) K) [0..<length K0])"

definition scores_of64 :: "double list list \<Rightarrow> double list list \<Rightarrow> error + double list list" where
  "scores_of64 Q K =
     (if length Q > 0 \<and> length K > 0
      then matMul64 (arr64 (rows64 Q)) (arr64 (transposeK64 K)) else Inr [])"

text \<open>\<^verbatim>\<open>Math.round(val / Math.sqrt(dK) * 100) / 100\<close> with \<^verbatim>\<open>dK = 2\<close>.\<close>

definition scale_score64 :: "double \<Rightarrow> double" where
  "scale_score64 val =
     div64 (Math_round64 (mul64 (div64 val (Math_sqrt64 (Dbl 2))) (Dbl 100))) (Dbl 100)"

definition scaledScores_of64 :: "double list list \<Rightarrow> double list list" where
  "scaledScores_of64 scores =
     (if length scores > 0 then map (map scale_score64) scores else [])"

text \<open>\<^verbatim>\<open>Math.round(x / sum * 1000) / 1000\<close>.\<close>

definition round3_of64 :: "double \<Rightarrow> double \<Rightarrow> double" where
  "round3_of64 sumExp x = div64 (Math_round64 (mul64 (div64 x sumExp) (Dbl 1000))) (Dbl 1000)"

fun softmax64 :: "libm \<Rightarrow> double list \<Rightarrow> double list" where
  "softmax64 L [] = []"
| "softmax64 L (x # xs) =
     (let maxVal = foldl max64 x xs;
          exps = map (\<lambda>x. Math_exp64 L (sub64 x maxVal)) (x # xs);
          sumExp = foldl add64 (Dbl 0) exps
      in map (round3_of64 sumExp) exps)"

definition attentionWeights_of64 :: "libm \<Rightarrow> double list list \<Rightarrow> double list list" where
  "attentionWeights_of64 L scaledScores =
     (if length scaledScores > 0 then map (softmax64 L) scaledScores else [])"

definition output_of64 :: "double list list \<Rightarrow> double list list \<Rightarrow> error + double list list" where
  "output_of64 attentionWeights V =
     (if length attentionWeights > 0
      then matMul64 (arr64 (rows64 attentionWeights)) (arr64 (rows64 V)) else Inr [])"

record stages64 =
  d_tokens :: "jsstring list"
  d_embeddings :: "double list list"
  d_Q :: "double list list"
  d_K :: "double list list"
  d_V :: "double list list"
  d_scores :: "double list list"
  d_scaledScores :: "double list list"
  d_attentionWeights :: "double list list"
  d_output :: "double list list"

definition attention64 :: "libm \<Rightarrow> jsstring \<Rightarrow> error + stages64" where
  "attention64 L inputText =
     (let toks = tokens inputText;
          emb = embeddings64 L toks
      in bindE (project64 emb WQ64) (\<lambda>Q.
         bindE (project64 emb WK64) (\<lambda>K.
         bindE (project64 emb WV64) (\<lambda>V.
         bindE (scores_of64 Q K) (\<lambda>scores.
           let scaledScores = scaledScores_of64 scores;
               attentionWeights = attentionWeights_of64 L scaledScores
           in bindE (output_of64 attentionWeights V) (\<lambda>output.
              Inr \<lparr>d_tokens = toks, d_embeddings = emb, d_Q = Q, d_K = K, d_V = V,
                   d_scores = scores, d_scaledScores = scaledScores,
                   d_attentionWeights = attentionWeights, d_output = output\<rparr>))))))"

text \<open>
  The dot product of two rows as the loop of \<open>matMul\<close> computes it: the products added
  from left to right, starting from 0.
\<close>

definition dot64 :: "double list \<Rightarrow> double list \<Rightarrow> double" where
  "dot64 u v = foldl add64 (Dbl 0) (map2 mul64 u v)"

section \<open>Facts about the tokenizer\<close>

lemma js_simps: "js [] = []" "js (c # cs) = of_char c # js cs"
  by (simp_all add: js_def)











lemma dropWhile_all: "\<forall>c \<in> set s. P c \<Longrightarrow> dropWhile P s = []"
  by (induction s) auto



lemma trim_all_whitespace: "\<forall>c \<in> set s. isWhitespace c \<Longrightarrow> trim s = []"
  unfolding trim_def by (simp only: dropWhile_all) simp

lemma tokens_all_whitespace: "\<forall>c \<in> set s. isWhitespace c \<Longrightarrow> tokens s = []"
  by (simp add: tokens_def trim_all_whitespace)

lemma tokens_example:
  "tokens (js ''The cat sat on the mat'') =
     map js [''The'', ''cat'', ''sat'', ''on'', ''the'', ''mat'']"
  by (simp add: tokens_def trim_def isWhitespace_def js_simps)




text \<open>
  Claim C7: for an input text that is empty or holds white space only, the token list
  is empty, every derived stage (embeddings, Q, K, V, scores, scaled scores, attention
  matrix, output) is the empty matrix, and no stage raises an exception: the pass
  returns the record of empty stages.
\<close>

theorem empty_input_empty_stages:
  assumes "\<forall>c \<in> set inputText. isWhitespace c"
  shows "attention inputText =
     Inr \<lparr>s_tokens = [], s_embeddings = [], s_Q = [], s_K = [], s_V = [], s_scores = [],
          s_scaledScores = [], s_attentionWeights = [], s_output = []\<rparr>"
  using assms
  by (simp add: attention_def tokens_all_whitespace embeddings_def project_def bindE_def
      scores_of_def scaledScores_of_def attentionWeights_of_def output_of_def)

theorem empty_input_empty_stages_witness:
  "isWhitespace 32 \<and> isWhitespace 9 \<and> isWhitespace 10 \<and> attention [32, 9, 10] =
     Inr \<lparr>s_tokens = [], s_embeddings = [], s_Q = [], s_K = [], s_V = [], s_scores = [],
          s_scaledScores = [], s_attentionWeights = [], s_output = []\<rparr>"
  using empty_input_empty_stages [of "[32, 9, 10]"] by (simp add: isWhitespace_def)

section \<open>Facts about the embedder\<close>

lemma embedToken_The: "embedToken (js ''The'') 0 = [Num 0.2, Num 1, Num 0.3, Num 0.4]"
  by (simp add: embedToken_def round2_def charCodeAt0_def js_simps)

text \<open>
  Claim C3, as stated: on the input \<^verbatim>\<open>"The cat sat on the mat"\<close> the embedder maps the
  token \<^verbatim>\<open>"The"\<close> at position 0 to \<open>[0.20, 1.00, 0.30, 0.80]\<close>. The fourth component is
  not \<open>0.80\<close>: the code unit of \<^verbatim>\<open>T\<close> is 84, \<open>84 mod 10 = 4\<close>, and \<open>4 * 0.1 = 0.4\<close>.
\<close>

theorem The_embedding_counterexample:
  "embeddings (tokens (js ''The cat sat on the mat'')) ! 0
     \<noteq> [Num 0.20, Num 1.00, Num 0.30, Num 0.80]"
  using embedToken_The by (simp add: tokens_example embeddings_def)

text \<open>
  Claim C3, amended: on the input \<^verbatim>\<open>"The cat sat on the mat"\<close> the embedder maps the
  token \<^verbatim>\<open>"The"\<close> at position 0 to exactly \<open>[0.20, 1.00, 0.30, 0.40]\<close>.
\<close>

theorem The_embedding:
  "embeddings (tokens (js ''The cat sat on the mat'')) ! 0
     = [Num 0.20, Num 1.00, Num 0.30, Num 0.40]"
  using embedToken_The by (simp add: tokens_example embeddings_def)

section \<open>Facts about matrix multiplication\<close>

lemma bindE_simps [simp]: "bindE (Inl e) f = Inl e" "bindE (Inr v) f = f v"
  by (simp_all add: bindE_def)

lemma matMul_k_present: "matMul_k Ai (map Some B) k j acc = Inr (dot_from Ai B k j acc)"
  by (induction B arbitrary: k acc) auto

lemma matMul_j_present:
  "matMul_j (Some Ai) (map Some B) cols = Inr (map (\<lambda>j. dot_from Ai B 0 j (Num 0)) cols)"
  by (induction cols) (auto simp: matMul_k_present)

lemma matMul_i_present:
  "matMul_i (map Some A) (map Some B) n =
     Inr (map (\<lambda>Ai. map (\<lambda>j. dot_from Ai B 0 j (Num 0)) [0..<n]) A)"
  by (induction A) (auto simp: matMul_j_present)

lemma matMul_arr:
  "matMul (arr A) (arr B) = Inr (if A = [] then [] else mmul A B)"
proof (cases A)
  case Nil
  then show ?thesis by (simp add: matMul_def arr_def)
next
  case (Cons A0 As)
  show ?thesis
  proof (cases B)
    case Nil
    then show ?thesis by (simp add: matMul_def arr_def Cons mmul_def)
  next
    case (Cons B0 Bs)
    have "matMul_i (Some A0 # map Some As) (Some B0 # map Some Bs) (length B0)
        = Inr (map (\<lambda>Ai. map (\<lambda>j. dot_from Ai (B0 # Bs) 0 j (Num 0)) [0..<length B0]) (A0 # As))"
      using matMul_i_present [of "A0 # As" "B0 # Bs" "length B0"] by simp
    then show ?thesis
      using \<open>A = A0 # As\<close> Cons by (simp add: matMul_def arr_def mmul_def comp_def)
  qed
qed

lemma jadd_NaN [simp]: "jadd v NaN = NaN" "jadd NaN v = NaN"
  by (cases v; simp)+

lemma jmul_NaN [simp]: "jmul v NaN = NaN" "jmul NaN v = NaN"
  by (cases v; simp)+

lemma round2_NaN [simp]: "round2 NaN = NaN"
  by (simp add: round2_def)

lemma dot_from_NaN [simp]: "dot_from Ai B k j NaN = NaN"
  by (induction B arbitrary: k) auto

lemma mmul_nth:
  "B \<noteq> [] \<Longrightarrow> i < length A \<Longrightarrow> j < length (hd B) \<Longrightarrow>
     mmul A B ! i ! j = round2 (dot_from (A ! i) B 0 j (Num 0))"
  by (cases B) (simp_all add: mmul_def)

lemma length_mmul: "B \<noteq> [] \<Longrightarrow> length (mmul A B) = length A"
  by (cases B) (simp_all add: mmul_def)

section \<open>Facts about the pipeline\<close>

lemma round2_half_up: "round2 (Num x) = Num (half_up 2 x)"
  by (simp add: round2_def half_up_def)

lemma project_eq: "project emb W = Inr (if emb = [] then [] else mmul emb W)"
  by (simp add: project_def matMul_arr)

lemma scores_of_eq:
  "scores_of Q K = Inr (if Q = [] \<or> K = [] then [] else mmul Q (transposeK K))"
  by (simp add: scores_of_def matMul_arr)

lemma output_of_eq: "output_of aw V = Inr (if aw = [] then [] else mmul aw V)"
  by (simp add: output_of_def matMul_arr)

lemma attention_eq:
  "attention inputText =
    (let toks = tokens inputText;
         E = embeddings toks;
         Q = (if E = [] then [] else mmul E WQ);
         K = (if E = [] then [] else mmul E WK);
         V = (if E = [] then [] else mmul E WV);
         S = (if Q = [] \<or> K = [] then [] else mmul Q (transposeK K));
         SS = scaledScores_of S;
         AW = attentionWeights_of SS
     in Inr \<lparr>s_tokens = toks, s_embeddings = E, s_Q = Q, s_K = K, s_V = V, s_scores = S,
             s_scaledScores = SS, s_attentionWeights = AW,
             s_output = (if AW = [] then [] else mmul AW V)\<rparr>)"
  by (simp add: attention_def project_eq scores_of_eq output_of_eq Let_def)

lemma tokens_nonempty: "t \<in> set (tokens s) \<Longrightarrow> t \<noteq> []"
  by (auto simp: tokens_def)

lemma embedToken_nums:
  "t \<noteq> [] \<Longrightarrow> \<exists>e0 e1 e2 e3. embedToken t i = [Num e0, Num e1, Num e2, Num e3]"
  by (cases t) (simp_all add: embedToken_def round2_half_up charCodeAt0_def)

lemma length_embeddings: "length (embeddings toks) = length toks"
  by (simp add: embeddings_def)

lemma embeddings_nth:
  "i < length toks \<Longrightarrow> embeddings toks ! i = embedToken (toks ! i) i"
  by (auto simp: embeddings_def nth_enumerate_eq)

lemma embeddings_rows:
  assumes "\<forall>t \<in> set toks. t \<noteq> []" "r \<in> set (embeddings toks)"
  shows "\<exists>e0 e1 e2 e3. r = [Num e0, Num e1, Num e2, Num e3]"
proof -
  obtain i where i: "i < length toks" "r = embeddings toks ! i"
    using assms(2) by (auto simp: in_set_conv_nth length_embeddings)
  then have "toks ! i \<noteq> []"
    using assms(1) by simp
  then show ?thesis
    using i embedToken_nums by (simp add: embeddings_nth)
qed

lemma weights_nonempty [simp]: "WQ \<noteq> []" "WK \<noteq> []" "WV \<noteq> []"
  by (simp_all add: WQ_def WK_def WV_def)

lemma project_row:
  assumes "W = WQ \<or> W = WK \<or> W = WV"
  shows "\<exists>a b. map (\<lambda>j. round2 (dot_from [Num e0, Num e1, Num e2, Num e3] W 0 j (Num 0))) [0..<2]
            = [Num a, Num b]"
proof -
  have "[0..<2] = [0, Suc 0]"
    by (simp add: upt_rec numeral_2_eq_2)
  then show ?thesis
    using assms by (auto simp: WQ_def WK_def WV_def elt_def round2_half_up)
qed


lemma project_rows:
  assumes W: "W = WQ \<or> W = WK \<or> W = WV"
    and E: "\<forall>r \<in> set E. \<exists>e0 e1 e2 e3. r = [Num e0, Num e1, Num e2, Num e3]"
    and r: "r \<in> set (mmul E W)"
  shows "\<exists>a b. r = [Num a, Num b]"
proof -
  obtain W0 Ws where Wc: "W = W0 # Ws" and l: "length W0 = 2"
    using W by (auto simp: WQ_def WK_def WV_def)
  obtain Ei where Ei: "Ei \<in> set E" "r = map (\<lambda>j. round2 (dot_from Ei W 0 j (Num 0))) [0..<2]"
    using r Wc l by (auto simp: mmul_def simp del: dot_from.simps)
  moreover obtain e0 e1 e2 e3 where "Ei = [Num e0, Num e1, Num e2, Num e3]"
    using E Ei(1) by blast
  ultimately show ?thesis
    using project_row [OF W, of e0 e1 e2 e3] by simp
qed

lemma transposeK_2:
  assumes "K \<noteq> []" "\<forall>r \<in> set K. \<exists>a b. r = [Num a, Num b]"
  shows "transposeK K = [map (\<lambda>r. elt r 0) K, map (\<lambda>r. elt r 1) K]"
proof -
  obtain K0 Ks where K: "K = K0 # Ks"
    using assms(1) by (cases K) auto
  then have "length K0 = 2"
    using assms(2) by auto
  moreover have "[0..<2] = [0, Suc 0]"
    by (simp add: upt_rec numeral_2_eq_2)
  ultimately show ?thesis
    by (simp add: transposeK_def K)
qed

lemma score_entry:
  assumes "Qi = [Num a, Num b]" "Kj = [Num c, Num d]" "j < length K" "K ! j = Kj"
  shows "round2 (dot_from Qi [map (\<lambda>r. elt r 0) K, map (\<lambda>r. elt r 1) K] 0 j (Num 0))
           = Num (half_up 2 (a * c + b * d))"
  using assms by (simp add: elt_def round2_half_up)

lemma sqrt2_nonzero: "sqrt dK \<noteq> 0" "\<not> dK < 0"
  by (simp_all add: dK_def)

lemma scale_score_Num: "scale_score (Num x) = Num (half_up 2 (x / sqrt 2))"
  using sqrt2_nonzero by (simp add: scale_score_def half_up_def dK_def)

lemma attention_scores:
  "\<exists>st. attention inputText = Inr st
     \<and> length (s_scores st) = length (tokens inputText)
     \<and> length (s_scaledScores st) = length (tokens inputText)
     \<and> s_attentionWeights st = map softmax (s_scaledScores st)
     \<and> (\<forall>i < length (tokens inputText). \<forall>j < length (tokens inputText).
          length (s_scores st ! i) = length (tokens inputText)
        \<and> length (s_scaledScores st ! i) = length (tokens inputText)
        \<and> (\<exists>a b c d. s_Q st ! i = [Num a, Num b] \<and> s_K st ! j = [Num c, Num d]
             \<and> s_scores st ! i ! j = Num (half_up 2 (a * c + b * d))
             \<and> s_scaledScores st ! i ! j
                 = Num (half_up 2 (half_up 2 (a * c + b * d) / sqrt 2))))"
proof (cases "tokens inputText = []")
  case True
  then show ?thesis
    by (simp add: attention_eq embeddings_def scaledScores_of_def attentionWeights_of_def)
next
  case False
  define toks where "toks = tokens inputText"
  define n where "n = length toks"
  define E where "E = embeddings toks"
  define Q where "Q = mmul E WQ"
  define K where "K = mmul E WK"
  define V where "V = mmul E WV"
  define S where "S = mmul Q (transposeK K)"
  define SS where "SS = map (map scale_score) S"
  have npos: "0 < n"
    using False by (simp add: n_def toks_def)
  have En: "length E = n"
    by (simp add: E_def n_def length_embeddings)
  then have Ene: "E \<noteq> []"
    using npos by auto
  have Erows: "\<forall>r \<in> set E. \<exists>e0 e1 e2 e3. r = [Num e0, Num e1, Num e2, Num e3]"
    unfolding E_def toks_def using embeddings_rows tokens_nonempty by blast
  have Qn: "length Q = n" and Kn: "length K = n"
    using En by (simp_all add: Q_def K_def length_mmul)
  have Qrows: "\<forall>r \<in> set Q. \<exists>a b. r = [Num a, Num b]"
    unfolding Q_def using project_rows [OF _ Erows] by blast
  have Krows: "\<forall>r \<in> set K. \<exists>a b. r = [Num a, Num b]"
    unfolding K_def using project_rows [OF _ Erows] by blast
  have Kne: "K \<noteq> []" and Qne: "Q \<noteq> []"
    using Kn Qn npos by auto
  have T: "transposeK K = [map (\<lambda>r. elt r 0) K, map (\<lambda>r. elt r 1) K]"
    using transposeK_2 [OF Kne Krows] .
  have Sn: "length S = n"
    by (simp add: S_def T length_mmul Qn)
  have Srow: "length (S ! i) = n" if "i < n" for i
    using that by (simp add: S_def T mmul_def Qn Kn del: dot_from.simps)
  have Sij: "\<exists>a b c d. Q ! i = [Num a, Num b] \<and> K ! j = [Num c, Num d]
             \<and> S ! i ! j = Num (half_up 2 (a * c + b * d))" if ij: "i < n" "j < n" for i j
  proof -
    have "Q ! i \<in> set Q" "K ! j \<in> set K"
      using ij Qn Kn by simp_all
    then obtain a b c d where q: "Q ! i = [Num a, Num b]" and k: "K ! j = [Num c, Num d]"
      using Qrows Krows by blast
    have "S ! i ! j = round2 (dot_from (Q ! i) (transposeK K) 0 j (Num 0))"
      unfolding S_def using ij by (intro mmul_nth) (simp_all add: T Qn Kn)
    also have "\<dots> = Num (half_up 2 (a * c + b * d))"
      unfolding T using q k ij Kn by (intro score_entry) simp_all
    finally show ?thesis
      using q k by blast
  qed
  have att: "attention inputText =
      Inr \<lparr>s_tokens = toks, s_embeddings = E, s_Q = Q, s_K = K, s_V = V, s_scores = S,
           s_scaledScores = SS, s_attentionWeights = attentionWeights_of SS,
           s_output = (if attentionWeights_of SS = [] then [] else mmul (attentionWeights_of SS) V)\<rparr>"
    using Ene Kne Qne Sn npos
    by (auto simp: attention_eq Let_def toks_def E_def Q_def K_def V_def S_def SS_def
        scaledScores_of_def)
  have "length SS = n"
    by (simp add: SS_def Sn)
  moreover have "length (SS ! i) = n" if "i < n" for i
    using that Srow Sn by (simp add: SS_def)
  moreover have "\<exists>a b c d. Q ! i = [Num a, Num b] \<and> K ! j = [Num c, Num d]
             \<and> S ! i ! j = Num (half_up 2 (a * c + b * d))
             \<and> SS ! i ! j = Num (half_up 2 (half_up 2 (a * c + b * d) / sqrt 2))"
    if ij: "i < n" "j < n" for i j
  proof -
    obtain a b c d where *: "Q ! i = [Num a, Num b]" "K ! j = [Num c, Num d]"
        "S ! i ! j = Num (half_up 2 (a * c + b * d))"
      using Sij [OF ij] by blast
    have "SS ! i ! j = scale_score (S ! i ! j)"
      using ij Sn Srow by (simp add: SS_def)
    then show ?thesis
      using * by (simp add: scale_score_Num)
  qed
  moreover have "attentionWeights_of SS = map softmax SS"
    by (simp add: attentionWeights_of_def)
  ultimately show ?thesis
    unfolding att using Sn Srow by (simp add: n_def toks_def)
qed


lemma upt2: "[0..<2] = [0, Suc 0]"
  by (simp add: upt_rec numeral_2_eq_2)

section \<open>Facts about softmax\<close>

lemma foldl_jmax_Num: "foldl jmax (Num y) (map Num ys) = Num (foldl max y ys)"
  by (induction ys arbitrary: y) auto

lemma foldl_jadd_Num:
  "foldl jadd (Num a) (map (\<lambda>x. Num (f x)) xs) = Num (a + (\<Sum>x\<leftarrow>xs. f x))"
  by (induction xs arbitrary: a) (auto simp: algebra_simps)

lemma sum_list_exp_pos: "ys \<noteq> [] \<Longrightarrow> 0 < (\<Sum>y\<leftarrow>ys. exp (y - m :: real))"
proof (cases ys)
  case Nil
  then show "ys \<noteq> [] \<Longrightarrow> ?thesis" by simp
next
  case (Cons y ys')
  have "0 \<le> (\<Sum>y\<leftarrow>ys'. exp (y - m))"
    by (rule sum_list_nonneg) auto
  then show ?thesis
    using Cons by (simp add: add_pos_nonneg)
qed

lemma round3_of_Num: "S \<noteq> 0 \<Longrightarrow> round3_of (Num S) (Num e) = Num (half_up 3 (e / S))"
  by (simp add: round3_of_def half_up_def)

lemma softmax_Num:
  assumes "ys \<noteq> []"
  shows "softmax (map Num ys) =
     map (\<lambda>y. Num (half_up 3 (exp (y - foldl max (hd ys) (tl ys))
        / (\<Sum>z\<leftarrow>ys. exp (z - foldl max (hd ys) (tl ys)))))) ys"
proof -
  obtain y ys' where ys: "ys = y # ys'"
    using assms by (cases ys) auto
  define m where "m = foldl max y ys'"
  define S where "S = (\<Sum>z\<leftarrow>ys. exp (z - m))"
  have S: "S \<noteq> 0"
    using sum_list_exp_pos [OF assms, of m] by (simp add: S_def)
  have e: "map (\<lambda>x. Math_exp (jsub x (Num m))) (map Num ys) = map Num (map (\<lambda>z. exp (z - m)) ys)"
    by simp
  have "softmax (map Num ys) = map (round3_of (Num S)) (map Num (map (\<lambda>z. exp (z - m)) ys))"
    unfolding ys S_def m_def
    by (simp add: foldl_jmax_Num foldl_jadd_Num Let_def comp_def)
  also have "\<dots> = map (\<lambda>y. Num (half_up 3 (exp (y - m) / S))) ys"
    using S by (simp add: round3_of_Num comp_def)
  finally show ?thesis
    by (simp add: m_def S_def ys)
qed

lemma half_up_close: "\<bar>half_up 3 p - p\<bar> \<le> 1 / 2000"
proof -
  define z where "z = real_of_int \<lfloor>p * 1000 + 1 / 2\<rfloor>"
  have "z \<le> p * 1000 + 1 / 2" "p * 1000 + 1 / 2 < z + 1"
    unfolding z_def by linarith+
  moreover have "half_up 3 p = z / 1000"
    by (simp add: half_up_def z_def)
  ultimately show ?thesis
    by linarith
qed

lemma half_up_unit: "0 \<le> p \<Longrightarrow> p \<le> 1 \<Longrightarrow> 0 \<le> half_up 3 p \<and> half_up 3 p \<le> 1"
proof -
  assume p: "0 \<le> p" "p \<le> 1"
  have "0 \<le> \<lfloor>p * 1000 + 1 / 2\<rfloor>"
    using p by simp
  moreover have "\<lfloor>p * 1000 + 1 / 2\<rfloor> \<le> 1000"
  proof -
    have "p * 1000 + 1 / 2 < 1001" using p by simp
    then have "\<lfloor>p * 1000 + 1 / 2\<rfloor> < 1001" by (simp add: floor_less_iff)
    then show ?thesis by simp
  qed
  ultimately show ?thesis
    by (simp add: half_up_def)
qed

lemma sum_list_abs_diff:
  "(\<And>x. x \<in> set xs \<Longrightarrow> \<bar>f x - g x\<bar> \<le> (c::real)) \<Longrightarrow>
     \<bar>(\<Sum>x\<leftarrow>xs. f x) - (\<Sum>x\<leftarrow>xs. g x)\<bar> \<le> real (length xs) * c"
proof (induction xs)
  case Nil
  then show ?case by simp
next
  case (Cons a xs)
  have "\<bar>f a - g a\<bar> \<le> c" using Cons.prems by simp
  moreover have "\<bar>(\<Sum>x\<leftarrow>xs. f x) - (\<Sum>x\<leftarrow>xs. g x)\<bar> \<le> real (length xs) * c"
    using Cons by simp
  ultimately show ?case
    by (simp add: algebra_simps abs_le_iff)
qed

lemma member_le_sum_list:
  "y \<in> set ys \<Longrightarrow> (\<And>z. z \<in> set ys \<Longrightarrow> 0 \<le> f z) \<Longrightarrow> f y \<le> (\<Sum>z\<leftarrow>ys. f z :: real)"
proof (induction ys)
  case Nil
  then show ?case by simp
next
  case (Cons a ys)
  have nn: "0 \<le> (\<Sum>z\<leftarrow>ys. f z)"
    using Cons.prems(2) by (intro sum_list_nonneg) auto
  have a: "0 \<le> f a"
    using Cons.prems(2) by simp
  show ?case
  proof (cases "y = a")
    case True
    then show ?thesis using nn by simp
  next
    case False
    then have "f y \<le> (\<Sum>z\<leftarrow>ys. f z)"
      using Cons by simp
    then show ?thesis using a by simp
  qed
qed

lemma sum_list_div: "(\<Sum>x\<leftarrow>xs. f x / c) = (\<Sum>x\<leftarrow>xs. f x) / (c::real)"
  by (induction xs) (simp_all add: add_divide_distrib)

lemma softmax_row_props:
  assumes "ys \<noteq> []"
  shows "\<exists>ps. softmax (map Num ys) = map Num ps \<and> length ps = length ys
      \<and> (\<forall>p \<in> set ps. 0 \<le> p \<and> p \<le> 1)
      \<and> \<bar>sum_list ps - 1\<bar> \<le> real (length ys) / 2000"
proof -
  define m where "m = foldl max (hd ys) (tl ys)"
  define S where "S = (\<Sum>z\<leftarrow>ys. exp (z - m))"
  define ps where "ps = map (\<lambda>y. half_up 3 (exp (y - m) / S)) ys"
  have Spos: "0 < S"
    using sum_list_exp_pos [OF assms] by (simp add: S_def)
  have 1: "softmax (map Num ys) = map Num ps"
    using softmax_Num [OF assms] by (simp add: ps_def m_def S_def comp_def)
  have frac: "0 \<le> exp (y - m) / S \<and> exp (y - m) / S \<le> 1" if "y \<in> set ys" for y
  proof -
    have "exp (y - m) \<le> S"
      unfolding S_def using that by (intro member_le_sum_list) simp_all
    then show ?thesis
      using Spos by simp
  qed
  have 2: "\<forall>p \<in> set ps. 0 \<le> p \<and> p \<le> 1"
    using frac half_up_unit by (auto simp: ps_def)
  have "(\<Sum>y\<leftarrow>ys. exp (y - m) / S) = 1"
    using Spos by (simp add: sum_list_div S_def)
  moreover have "\<bar>(\<Sum>y\<leftarrow>ys. half_up 3 (exp (y - m) / S)) - (\<Sum>y\<leftarrow>ys. exp (y - m) / S)\<bar>
      \<le> real (length ys) * (1 / 2000)"
    by (intro sum_list_abs_diff half_up_close)
  ultimately have 3: "\<bar>sum_list ps - 1\<bar> \<le> real (length ys) / 2000"
    by (simp add: ps_def comp_def)
  show ?thesis
    using 1 2 3 by (intro exI [of _ ps]) (simp add: ps_def)
qed






section \<open>Facts about the attention-story summarizer\<close>














lemma validIndices_Nil [simp]: "validIndices toks [] = []" "validIndices [] r = []"
  by (simp_all add: validIndices_def)






section \<open>Bounds on sine, cosine and the exponential\<close>

lemma sin_coeff_vals:
  "sin_coeff 0 = 0" "sin_coeff 1 = 1" "sin_coeff 2 = 0" "sin_coeff 3 = - 1 / 6"
  "sin_coeff 4 = 0" "sin_coeff 5 = 1 / 120" "sin_coeff 6 = 0" "sin_coeff 7 = - 1 / 5040"
  "sin_coeff 8 = 0" "sin_coeff 9 = 1 / 362880" "sin_coeff 10 = 0" "sin_coeff 11 = - 1 / 39916800"
  by (simp_all add: sin_coeff_def fact_numeral)

lemma cos_coeff_vals:
  "cos_coeff 0 = 1" "cos_coeff 1 = 0" "cos_coeff 2 = - 1 / 2" "cos_coeff 3 = 0"
  "cos_coeff 4 = 1 / 24" "cos_coeff 5 = 0" "cos_coeff 6 = - 1 / 720" "cos_coeff 7 = 0"
  "cos_coeff 8 = 1 / 40320" "cos_coeff 9 = 0" "cos_coeff 10 = - 1 / 3628800" "cos_coeff 11 = 0"
  by (simp_all add: cos_coeff_def fact_numeral)

lemma fact_vals: "fact 8 = (40320 :: real)" "fact 12 = (479001600 :: real)"
  by (simp_all add: fact_numeral)

lemma sum12:
  "(\<Sum>m<12. f m) = f 0 + f 1 + f 2 + f 3 + f 4 + f 5 + f 6 + f 7 + f 8 + f 9 + f 10 + f 11"
  for f :: "nat \<Rightarrow> real"
  by (simp add: eval_nat_numeral)

lemma sum8: "(\<Sum>m<8. f m) = f 0 + f 1 + f 2 + f 3 + f 4 + f 5 + f 6 + f 7"
  for f :: "nat \<Rightarrow> real"
  by (simp add: eval_nat_numeral)

lemma sin_poly:
  "\<bar>sin x - (x - x^3 / 6 + x^5 / 120 - x^7 / 5040 + x^9 / 362880 - x^11 / 39916800)\<bar>
     \<le> \<bar>x\<bar> ^ 12 / 479001600" for x :: real
proof -
  have s: "(\<Sum>m<12. sin_coeff m * x ^ m)
      = x - x^3 / 6 + x^5 / 120 - x^7 / 5040 + x^9 / 362880 - x^11 / 39916800"
    unfolding sum12 sin_coeff_vals by simp
  have f: "inverse (fact 12) * \<bar>x\<bar> ^ 12 = \<bar>x\<bar> ^ 12 / 479001600"
    unfolding fact_vals by (simp add: inverse_eq_divide)
  show ?thesis
    using Maclaurin_sin_bound [of x 12] unfolding s f .
qed

lemma cos_poly:
  fixes x :: real
  assumes xpos: "0 < x"
  shows "\<bar>cos x - (1 - x^2 / 2 + x^4 / 24 - x^6 / 720 + x^8 / 40320 - x^10 / 3628800)\<bar>
     \<le> x ^ 12 / 479001600"
proof -
  obtain t where t: "cos x = (\<Sum>m<12. cos_coeff m * x ^ m) + (cos (t + 1/2 * real 12 * pi) / fact 12) * x ^ 12"
    using Maclaurin_cos_expansion2 [OF xpos, of 12] by auto
  have s: "(\<Sum>m<12. cos_coeff m * x ^ m)
      = 1 - x^2 / 2 + x^4 / 24 - x^6 / 720 + x^8 / 40320 - x^10 / 3628800"
    unfolding sum12 cos_coeff_vals by simp
  define c where "c = cos (t + 1/2 * real 12 * pi)"
  have c: "\<bar>c\<bar> \<le> 1"
    unfolding c_def by (rule abs_cos_le_one)
  have "\<bar>c\<bar> * (x ^ 12 / 479001600) \<le> 1 * (x ^ 12 / 479001600)"
    using c xpos by (intro mult_right_mono) simp_all
  then have b: "\<bar>c * (x ^ 12 / 479001600)\<bar> \<le> x ^ 12 / 479001600"
    using xpos by (simp add: abs_mult)
  have eq: "cos x - (1 - x^2 / 2 + x^4 / 24 - x^6 / 720 + x^8 / 40320 - x^10 / 3628800)
      = c * (x ^ 12 / 479001600)"
    unfolding t s c_def fact_vals by simp
  show ?thesis
    unfolding eq by (rule b)
qed

lemma exp_poly:
  fixes x :: real
  assumes x: "- 1 \<le> x" "x \<le> 0"
  shows "1 + x + x^2 / 2 + x^3 / 6 + x^4 / 24 + x^5 / 120 + x^6 / 720 + x^7 / 5040 \<le> exp x"
    and "exp x \<le> 1 + x + x^2 / 2 + x^3 / 6 + x^4 / 24 + x^5 / 120 + x^6 / 720 + x^7 / 5040
          + x^8 / 13440"
proof -
  obtain t where t: "\<bar>t\<bar> \<le> \<bar>x\<bar>" "exp x = (\<Sum>m<8. x ^ m / fact m) + (exp t / fact 8) * x ^ 8"
    using Maclaurin_exp_le [of x 8] by auto
  have s: "(\<Sum>m<8. x ^ m / fact m)
      = 1 + x + x^2 / 2 + x^3 / 6 + x^4 / 24 + x^5 / 120 + x^6 / 720 + x^7 / 5040"
    unfolding sum8 by (simp add: fact_numeral)
  have x8: "0 \<le> x ^ 8"
    by simp
  have "t \<le> 1"
    using t(1) x by simp
  then have "exp t \<le> exp 1"
    by simp
  then have e3: "exp t \<le> 3"
    using exp_le by linarith
  have e0: "0 \<le> exp t"
    by simp
  have r: "(exp t / fact 8) * x ^ 8 = exp t * (x ^ 8 / 40320)"
    unfolding fact_vals by simp
  have "0 \<le> exp t * (x ^ 8 / 40320)"
    using e0 x8 by simp
  moreover have "exp t * (x ^ 8 / 40320) \<le> 3 * (x ^ 8 / 40320)"
    using e3 x8 by (intro mult_right_mono) simp_all
  ultimately show
    "1 + x + x^2 / 2 + x^3 / 6 + x^4 / 24 + x^5 / 120 + x^6 / 720 + x^7 / 5040 \<le> exp x"
    "exp x \<le> 1 + x + x^2 / 2 + x^3 / 6 + x^4 / 24 + x^5 / 120 + x^6 / 720 + x^7 / 5040
          + x^8 / 13440"
    unfolding t(2) s r by simp_all
qed

lemma sin_1_2: "479 / 1000 \<le> sin (1 / 2 :: real)" "sin (1 / 2 :: real) < 12 / 25"
proof -
  have p: "(1 / 2 :: real) - (1 / 2)^3 / 6 + (1 / 2)^5 / 120 - (1 / 2)^7 / 5040 + (1 / 2)^9 / 362880
      - (1 / 2)^11 / 39916800 = 39192849079 / 81749606400"
    by (simp add: power_divide)
  have e: "\<bar>1 / 2 :: real\<bar> ^ 12 / 479001600 = 1 / 1961990553600"
    by (simp add: power_divide)
  have "\<bar>sin (1 / 2 :: real) - (39192849079 / 81749606400)\<bar> \<le> 1 / 1961990553600"
    using sin_poly [of "1 / 2"] unfolding p e .
  then have b: "39192849079 / 81749606400 - 1 / 1961990553600 \<le> sin (1 / 2 :: real) \<and> sin (1 / 2 :: real) \<le> 39192849079 / 81749606400 + 1 / 1961990553600"
    by (simp only: abs_diff_le_iff)
  have lo: "(479 / 1000 :: real) \<le> 39192849079 / 81749606400 - 1 / 1961990553600"
    by simp
  have hi: "39192849079 / 81749606400 + 1 / 1961990553600 < (12 / 25 :: real)"
    by simp
  show "479 / 1000 \<le> sin (1 / 2 :: real)"
    by (rule order_trans [OF lo conjunct1 [OF b]])
  show "sin (1 / 2 :: real) < 12 / 25"
    by (rule le_less_trans [OF conjunct2 [OF b] hi])
qed

lemma sin_1: "841 / 1000 \<le> sin (1 :: real)" "sin (1 :: real) < 421 / 500"
proof -
  have p: "(1 :: real) - (1)^3 / 6 + (1)^5 / 120 - (1)^7 / 5040 + (1)^9 / 362880
      - (1)^11 / 39916800 = 33588829 / 39916800"
    by (simp add: power_divide)
  have e: "\<bar>1 :: real\<bar> ^ 12 / 479001600 = 1 / 479001600"
    by (simp add: power_divide)
  have "\<bar>sin (1 :: real) - (33588829 / 39916800)\<bar> \<le> 1 / 479001600"
    using sin_poly [of "1"] unfolding p e .
  then have b: "33588829 / 39916800 - 1 / 479001600 \<le> sin (1 :: real) \<and> sin (1 :: real) \<le> 33588829 / 39916800 + 1 / 479001600"
    by (simp only: abs_diff_le_iff)
  have lo: "(841 / 1000 :: real) \<le> 33588829 / 39916800 - 1 / 479001600"
    by simp
  have hi: "33588829 / 39916800 + 1 / 479001600 < (421 / 500 :: real)"
    by simp
  show "841 / 1000 \<le> sin (1 :: real)"
    by (rule order_trans [OF lo conjunct1 [OF b]])
  show "sin (1 :: real) < 421 / 500"
    by (rule le_less_trans [OF conjunct2 [OF b] hi])
qed

lemma sin_3_2: "997 / 1000 \<le> sin (3 / 2 :: real)" "sin (3 / 2 :: real) < 499 / 500"
proof -
  have p: "(3 / 2 :: real) - (3 / 2)^3 / 6 + (3 / 2)^5 / 120 - (3 / 2)^7 / 5040 + (3 / 2)^9 / 362880
      - (3 / 2)^11 / 39916800 = 1006726173 / 1009254400"
    by (simp add: power_divide)
  have e: "\<bar>3 / 2 :: real\<bar> ^ 12 / 479001600 = 2187 / 8074035200"
    by (simp add: power_divide)
  have "\<bar>sin (3 / 2 :: real) - (1006726173 / 1009254400)\<bar> \<le> 2187 / 8074035200"
    using sin_poly [of "3 / 2"] unfolding p e .
  then have b: "1006726173 / 1009254400 - 2187 / 8074035200 \<le> sin (3 / 2 :: real) \<and> sin (3 / 2 :: real) \<le> 1006726173 / 1009254400 + 2187 / 8074035200"
    by (simp only: abs_diff_le_iff)
  have lo: "(997 / 1000 :: real) \<le> 1006726173 / 1009254400 - 2187 / 8074035200"
    by simp
  have hi: "1006726173 / 1009254400 + 2187 / 8074035200 < (499 / 500 :: real)"
    by simp
  show "997 / 1000 \<le> sin (3 / 2 :: real)"
    by (rule order_trans [OF lo conjunct1 [OF b]])
  show "sin (3 / 2 :: real) < 499 / 500"
    by (rule le_less_trans [OF conjunct2 [OF b] hi])
qed

lemma sin_2: "909 / 1000 \<le> sin (2 :: real)" "sin (2 :: real) < 91 / 100"
proof -
  have p: "(2 :: real) - (2)^3 / 6 + (2)^5 / 120 - (2)^7 / 5040 + (2)^9 / 362880
      - (2)^11 / 39916800 = 141782 / 155925"
    by (simp add: power_divide)
  have e: "\<bar>2 :: real\<bar> ^ 12 / 479001600 = 4 / 467775"
    by (simp add: power_divide)
  have "\<bar>sin (2 :: real) - (141782 / 155925)\<bar> \<le> 4 / 467775"
    using sin_poly [of "2"] unfolding p e .
  then have b: "141782 / 155925 - 4 / 467775 \<le> sin (2 :: real) \<and> sin (2 :: real) \<le> 141782 / 155925 + 4 / 467775"
    by (simp only: abs_diff_le_iff)
  have lo: "(909 / 1000 :: real) \<le> 141782 / 155925 - 4 / 467775"
    by simp
  have hi: "141782 / 155925 + 4 / 467775 < (91 / 100 :: real)"
    by simp
  show "909 / 1000 \<le> sin (2 :: real)"
    by (rule order_trans [OF lo conjunct1 [OF b]])
  show "sin (2 :: real) < 91 / 100"
    by (rule le_less_trans [OF conjunct2 [OF b] hi])
qed

lemma cos_3_10: "191 / 200 \<le> cos (3 / 10 :: real)" "cos (3 / 10 :: real) < 239 / 250"
proof -
  have p: "1 - (3 / 10 :: real)^2 / 2 + (3 / 10)^4 / 24 - (3 / 10)^6 / 720 + (3 / 10)^8 / 40320
      - (3 / 10)^10 / 3628800 = 427990747128271 / 448000000000000"
    by (simp add: power_divide)
  have e: "(3 / 10 :: real) ^ 12 / 479001600 = 2187 / 1971200000000000000"
    by (simp add: power_divide)
  have "\<bar>cos (3 / 10 :: real) - (427990747128271 / 448000000000000)\<bar> \<le> 2187 / 1971200000000000000"
    using cos_poly [of "3 / 10"] unfolding p e by simp
  then have b: "427990747128271 / 448000000000000 - 2187 / 1971200000000000000 \<le> cos (3 / 10 :: real) \<and> cos (3 / 10 :: real) \<le> 427990747128271 / 448000000000000 + 2187 / 1971200000000000000"
    by (simp only: abs_diff_le_iff)
  have lo: "(191 / 200 :: real) \<le> 427990747128271 / 448000000000000 - 2187 / 1971200000000000000"
    by simp
  have hi: "427990747128271 / 448000000000000 + 2187 / 1971200000000000000 < (239 / 250 :: real)"
    by simp
  show "191 / 200 \<le> cos (3 / 10 :: real)"
    by (rule order_trans [OF lo conjunct1 [OF b]])
  show "cos (3 / 10 :: real) < 239 / 250"
    by (rule le_less_trans [OF conjunct2 [OF b] hi])
qed

lemma cos_3_5: "8253 / 10000 \<le> cos (3 / 5 :: real)" "cos (3 / 5 :: real) < 4127 / 5000"
proof -
  have p: "1 - (3 / 5 :: real)^2 / 2 + (3 / 5)^4 / 24 - (3 / 5)^6 / 720 + (3 / 5)^8 / 40320
      - (3 / 5)^10 / 3628800 = 361084331521 / 437500000000"
    by (simp add: power_divide)
  have e: "(3 / 5 :: real) ^ 12 / 479001600 = 2187 / 481250000000000"
    by (simp add: power_divide)
  have "\<bar>cos (3 / 5 :: real) - (361084331521 / 437500000000)\<bar> \<le> 2187 / 481250000000000"
    using cos_poly [of "3 / 5"] unfolding p e by simp
  then have b: "361084331521 / 437500000000 - 2187 / 481250000000000 \<le> cos (3 / 5 :: real) \<and> cos (3 / 5 :: real) \<le> 361084331521 / 437500000000 + 2187 / 481250000000000"
    by (simp only: abs_diff_le_iff)
  have lo: "(8253 / 10000 :: real) \<le> 361084331521 / 437500000000 - 2187 / 481250000000000"
    by simp
  have hi: "361084331521 / 437500000000 + 2187 / 481250000000000 < (4127 / 5000 :: real)"
    by simp
  show "8253 / 10000 \<le> cos (3 / 5 :: real)"
    by (rule order_trans [OF lo conjunct1 [OF b]])
  show "cos (3 / 5 :: real) < 4127 / 5000"
    by (rule le_less_trans [OF conjunct2 [OF b] hi])
qed

lemma cos_9_10: "621 / 1000 \<le> cos (9 / 10 :: real)" "cos (9 / 10 :: real) < 311 / 500"
proof -
  have p: "1 - (9 / 10 :: real)^2 / 2 + (9 / 10)^4 / 24 - (9 / 10)^6 / 720 + (9 / 10)^8 / 40320
      - (9 / 10)^10 / 3628800 = 278481265522279 / 448000000000000"
    by (simp add: power_divide)
  have e: "(9 / 10 :: real) ^ 12 / 479001600 = 1162261467 / 1971200000000000000"
    by (simp add: power_divide)
  have "\<bar>cos (9 / 10 :: real) - (278481265522279 / 448000000000000)\<bar> \<le> 1162261467 / 1971200000000000000"
    using cos_poly [of "9 / 10"] unfolding p e by simp
  then have b: "278481265522279 / 448000000000000 - 1162261467 / 1971200000000000000 \<le> cos (9 / 10 :: real) \<and> cos (9 / 10 :: real) \<le> 278481265522279 / 448000000000000 + 1162261467 / 1971200000000000000"
    by (simp only: abs_diff_le_iff)
  have lo: "(621 / 1000 :: real) \<le> 278481265522279 / 448000000000000 - 1162261467 / 1971200000000000000"
    by simp
  have hi: "278481265522279 / 448000000000000 + 1162261467 / 1971200000000000000 < (311 / 500 :: real)"
    by simp
  show "621 / 1000 \<le> cos (9 / 10 :: real)"
    by (rule order_trans [OF lo conjunct1 [OF b]])
  show "cos (9 / 10 :: real) < 311 / 500"
    by (rule le_less_trans [OF conjunct2 [OF b] hi])
qed

lemma cos_6_5: "181 / 500 \<le> cos (6 / 5 :: real)" "cos (6 / 5 :: real) < 363 / 1000"
proof -
  have p: "1 - (6 / 5 :: real)^2 / 2 + (6 / 5)^4 / 24 - (6 / 5)^6 / 720 + (6 / 5)^8 / 40320
      - (6 / 5)^10 / 3628800 = 619263709 / 1708984375"
    by (simp add: power_divide)
  have e: "(6 / 5 :: real) ^ 12 / 479001600 = 8748 / 469970703125"
    by (simp add: power_divide)
  have "\<bar>cos (6 / 5 :: real) - (619263709 / 1708984375)\<bar> \<le> 8748 / 469970703125"
    using cos_poly [of "6 / 5"] unfolding p e by simp
  then have b: "619263709 / 1708984375 - 8748 / 469970703125 \<le> cos (6 / 5 :: real) \<and> cos (6 / 5 :: real) \<le> 619263709 / 1708984375 + 8748 / 469970703125"
    by (simp only: abs_diff_le_iff)
  have lo: "(181 / 500 :: real) \<le> 619263709 / 1708984375 - 8748 / 469970703125"
    by simp
  have hi: "619263709 / 1708984375 + 8748 / 469970703125 < (363 / 1000 :: real)"
    by simp
  show "181 / 500 \<le> cos (6 / 5 :: real)"
    by (rule order_trans [OF lo conjunct1 [OF b]])
  show "cos (6 / 5 :: real) < 363 / 1000"
    by (rule le_less_trans [OF conjunct2 [OF b] hi])
qed

lemma exp_69: "50157 / 100000 \<le> exp (- 69 / 100 :: real)" "exp (- 69 / 100 :: real) \<le> 25079 / 50000"
proof -
  have p: "1 + (- 69 / 100 :: real) + (- 69 / 100)^2 / 2 + (- 69 / 100)^3 / 6 + (- 69 / 100)^4 / 24 + (- 69 / 100)^5 / 120
      + (- 69 / 100)^6 / 720 + (- 69 / 100)^7 / 5040 = 28088193622702679 / 56000000000000000"
    by (simp add: power_divide)
  have e: "(- 69 / 100 :: real) ^ 8 / 13440 = 171266124809547 / 44800000000000000000"
    by (simp add: power_divide)
  have b: "28088193622702679 / 56000000000000000 \<le> exp (- 69 / 100 :: real)" "exp (- 69 / 100 :: real) \<le> 28088193622702679 / 56000000000000000 + 171266124809547 / 44800000000000000000"
    using exp_poly [of "- 69 / 100"] unfolding p e by simp_all
  have lo: "(50157 / 100000 :: real) \<le> 28088193622702679 / 56000000000000000"
    by simp
  have hi: "28088193622702679 / 56000000000000000 + 171266124809547 / 44800000000000000000 \<le> (25079 / 50000 :: real)"
    by simp
  show "50157 / 100000 \<le> exp (- 69 / 100 :: real)"
    by (rule order_trans [OF lo b(1)])
  show "exp (- 69 / 100 :: real) \<le> 25079 / 50000"
    by (rule order_trans [OF b(2) hi])
qed

lemma exp_22: "80251 / 100000 \<le> exp (- 11 / 50 :: real)" "exp (- 11 / 50 :: real) \<le> 20063 / 25000"
proof -
  have p: "1 + (- 11 / 50 :: real) + (- 11 / 50)^2 / 2 + (- 11 / 50)^3 / 6 + (- 11 / 50)^4 / 24 + (- 11 / 50)^5 / 120
      + (- 11 / 50)^6 / 720 + (- 11 / 50)^7 / 5040 = 1053305922151393 / 1312500000000000"
    by (simp add: power_divide)
  have e: "(- 11 / 50 :: real) ^ 8 / 13440 = 214358881 / 525000000000000000"
    by (simp add: power_divide)
  have b: "1053305922151393 / 1312500000000000 \<le> exp (- 11 / 50 :: real)" "exp (- 11 / 50 :: real) \<le> 1053305922151393 / 1312500000000000 + 214358881 / 525000000000000000"
    using exp_poly [of "- 11 / 50"] unfolding p e by simp_all
  have lo: "(80251 / 100000 :: real) \<le> 1053305922151393 / 1312500000000000"
    by simp
  have hi: "1053305922151393 / 1312500000000000 + 214358881 / 525000000000000000 \<le> (20063 / 25000 :: real)"
    by simp
  show "80251 / 100000 \<le> exp (- 11 / 50 :: real)"
    by (rule order_trans [OF lo b(1)])
  show "exp (- 11 / 50 :: real) \<le> 20063 / 25000"
    by (rule order_trans [OF b(2) hi])
qed

lemma exp_20: "81873 / 100000 \<le> exp (- 1 / 5 :: real)" "exp (- 1 / 5 :: real) \<le> 40937 / 50000"
proof -
  have p: "1 + (- 1 / 5 :: real) + (- 1 / 5)^2 / 2 + (- 1 / 5)^3 / 6 + (- 1 / 5)^4 / 24 + (- 1 / 5)^5 / 120
      + (- 1 / 5)^6 / 720 + (- 1 / 5)^7 / 5040 = 161187617 / 196875000"
    by (simp add: power_divide)
  have e: "(- 1 / 5 :: real) ^ 8 / 13440 = 1 / 5250000000"
    by (simp add: power_divide)
  have b: "161187617 / 196875000 \<le> exp (- 1 / 5 :: real)" "exp (- 1 / 5 :: real) \<le> 161187617 / 196875000 + 1 / 5250000000"
    using exp_poly [of "- 1 / 5"] unfolding p e by simp_all
  have lo: "(81873 / 100000 :: real) \<le> 161187617 / 196875000"
    by simp
  have hi: "161187617 / 196875000 + 1 / 5250000000 \<le> (40937 / 50000 :: real)"
    by simp
  show "81873 / 100000 \<le> exp (- 1 / 5 :: real)"
    by (rule order_trans [OF lo b(1)])
  show "exp (- 1 / 5 :: real) \<le> 40937 / 50000"
    by (rule order_trans [OF b(2) hi])
qed

section \<open>An attention row that sums to 1.002\<close>

lemma round2I:
  assumes "real_of_int m - 1 / 2 \<le> x * 100" "x * 100 < real_of_int m + 1 / 2"
    and "r = real_of_int m / 100"
  shows "round2 (Num x) = Num r"
proof -
  have "\<lfloor>x * 100 + 1 / 2\<rfloor> = m"
    using assms(1,2) by (intro floor_unique) linarith+
  then show ?thesis
    using assms(3) by (simp add: round2_def)
qed

lemma idx_vals:
  "real (Suc 0) * 0.5 = 1 / 2" "real (Suc 0) * 0.3 = 3 / 10"
  "real (Suc (Suc 0)) * 0.5 = 1" "real (Suc (Suc 0)) * 0.3 = 3 / 5"
  "real (Suc (Suc (Suc 0))) * 0.5 = 3 / 2" "real (Suc (Suc (Suc 0))) * 0.3 = 9 / 10"
  "real (Suc (Suc (Suc (Suc 0)))) * 0.5 = 2" "real (Suc (Suc (Suc (Suc 0)))) * 0.3 = 6 / 5"
  by simp_all

lemma pos_vals:
  "round2 (Num (sin (1 / 2) * 0.8 + 0.2)) = Num 0.58"
  "round2 (Num (cos (3 / 10) * 0.6 + 0.4)) = Num 0.97"
  "round2 (Num (sin 1 * 0.8 + 0.2)) = Num 0.87"
  "round2 (Num (cos (3 / 5) * 0.6 + 0.4)) = Num 0.9"
  "round2 (Num (sin (3 / 2) * 0.8 + 0.2)) = Num 1"
  "round2 (Num (cos (9 / 10) * 0.6 + 0.4)) = Num 0.77"
  "round2 (Num (sin 2 * 0.8 + 0.2)) = Num 0.93"
  "round2 (Num (cos (6 / 5) * 0.6 + 0.4)) = Num 0.62"
proof -
  show "round2 (Num (sin (1 / 2) * 0.8 + 0.2)) = Num 0.58"
    using sin_1_2 by (intro round2I [where m = 58]) simp_all
  show "round2 (Num (cos (3 / 10) * 0.6 + 0.4)) = Num 0.97"
    using cos_3_10 by (intro round2I [where m = 97]) simp_all
  show "round2 (Num (sin 1 * 0.8 + 0.2)) = Num 0.87"
    using sin_1 by (intro round2I [where m = 87]) simp_all
  show "round2 (Num (cos (3 / 5) * 0.6 + 0.4)) = Num 0.9"
    using cos_3_5 by (intro round2I [where m = 90]) simp_all
  show "round2 (Num (sin (3 / 2) * 0.8 + 0.2)) = Num 1"
    using sin_3_2 by (intro round2I [where m = 100]) simp_all
  show "round2 (Num (cos (9 / 10) * 0.6 + 0.4)) = Num 0.77"
    using cos_9_10 by (intro round2I [where m = 77]) simp_all
  show "round2 (Num (sin 2 * 0.8 + 0.2)) = Num 0.93"
    using sin_2 by (intro round2I [where m = 93]) simp_all
  show "round2 (Num (cos (6 / 5) * 0.6 + 0.4)) = Num 0.62"
    using cos_6_5 by (intro round2I [where m = 62]) simp_all
qed


lemma tokens_This:
  "tokens (js ''This boy sees a cat'') = [js ''This'', js ''boy'', js ''sees'', js ''a'', js ''cat'']"
  by (simp add: tokens_def trim_def isWhitespace_def js_simps)

lemma tail_vals:
  "round2 (Num (real (length (js ''This'')) * 0.1)) = Num 0.4"
  "round2 (jmul (jmod10 (charCodeAt0 (js ''This''))) (Num 0.1)) = Num 0.4"
  "round2 (Num (real (length (js ''boy'')) * 0.1)) = Num 0.3"
  "round2 (jmul (jmod10 (charCodeAt0 (js ''boy''))) (Num 0.1)) = Num 0.8"
  "round2 (Num (real (length (js ''sees'')) * 0.1)) = Num 0.4"
  "round2 (jmul (jmod10 (charCodeAt0 (js ''sees''))) (Num 0.1)) = Num 0.5"
  "round2 (Num (real (length (js ''a'')) * 0.1)) = Num 0.1"
  "round2 (jmul (jmod10 (charCodeAt0 (js ''a''))) (Num 0.1)) = Num 0.7"
  "round2 (Num (real (length (js ''cat'')) * 0.1)) = Num 0.3"
  "round2 (jmul (jmod10 (charCodeAt0 (js ''cat''))) (Num 0.1)) = Num 0.9"
  by (simp_all add: round2_def charCodeAt0_def js_simps)

lemma head_vals:
  "round2 (Num (sin (real 0 * 0.5) * 0.8 + 0.2)) = Num 0.2"
  "round2 (Num (cos (real 0 * 0.3) * 0.6 + 0.4)) = Num 1"
  by (simp_all add: round2_def)

lemma embeddings_This:
  "embeddings [js ''This'', js ''boy'', js ''sees'', js ''a'', js ''cat''] = sentence_embeddings"
proof -
  have "embeddings [js ''This'', js ''boy'', js ''sees'', js ''a'', js ''cat'']
      = [embedToken (js ''This'') 0, embedToken (js ''boy'') (Suc 0),
         embedToken (js ''sees'') (Suc (Suc 0)), embedToken (js ''a'') (Suc (Suc (Suc 0))),
         embedToken (js ''cat'') (Suc (Suc (Suc (Suc 0))))]"
    by (simp add: embeddings_def)
  also have "\<dots> = sentence_embeddings"
    unfolding embedToken_def sentence_embeddings_def list.map idx_vals pos_vals tail_vals head_vals ..
  finally show ?thesis .
qed


lemma upt5: "[0..<5] = [0, Suc 0, Suc (Suc 0), Suc (Suc (Suc 0)), Suc (Suc (Suc (Suc 0)))]"
  by (simp add: upt_rec eval_nat_numeral)

lemma K_This: "mmul sentence_embeddings WK = sentence_keys"
  by (simp add: mmul_def sentence_embeddings_def sentence_keys_def WK_def upt2 elt_def round2_def)

lemma mmul_row:
  "B \<noteq> [] \<Longrightarrow> i < length A \<Longrightarrow>
     mmul A B ! i = map (\<lambda>j. round2 (dot_from (A ! i) B 0 j (Num 0))) [0..<length (hd B)]"
  by (cases B) (simp_all add: mmul_def del: dot_from.simps)

lemma Q0_This: "mmul sentence_embeddings WQ ! 0 = [Num 0.42, Num 0.94]"
  by (subst mmul_row) (simp_all add: sentence_embeddings_def WQ_def upt2 elt_def round2_def)

lemma T_This:
  "transposeK sentence_keys = [[Num 0.22, Num 0.3, Num 0.45, Num 0.3, Num 0.49],
                    [Num 0.66, Num 1.32, Num 1.29, Num 1.65, Num 1.57]]"
  by (simp add: transposeK_def sentence_keys_def upt2 elt_def)

lemma S0_This:
  "mmul (mmul sentence_embeddings WQ) (transposeK sentence_keys) ! 0 = [Num 0.71, Num 1.37, Num 1.4, Num 1.68, Num 1.68]"
proof -
  have "mmul (mmul sentence_embeddings WQ) (transposeK sentence_keys) ! 0
      = map (\<lambda>j. round2 (dot_from (mmul sentence_embeddings WQ ! 0) (transposeK sentence_keys) 0 j (Num 0)))
          [0..<length (hd (transposeK sentence_keys))]"
    by (rule mmul_row) (simp_all add: T_This length_mmul sentence_embeddings_def)
  also have "\<dots> = [Num 0.71, Num 1.37, Num 1.4, Num 1.68, Num 1.68]"
    unfolding Q0_This T_This by (simp add: upt5 elt_def round2_def)
  finally show ?thesis .
qed


lemma sqrt2_bounds: "1414 / 1000 < sqrt (2 :: real)" "sqrt (2 :: real) < 1415 / 1000"
proof -
  show "1414 / 1000 < sqrt (2 :: real)"
    by (rule real_less_rsqrt) (simp add: power2_eq_square)
  show "sqrt (2 :: real) < 1415 / 1000"
    by (rule real_less_lsqrt) (simp_all add: power2_eq_square)
qed

lemma scaleI:
  assumes "(real_of_int m - 1 / 2) * sqrt 2 \<le> x * 100" "x * 100 < (real_of_int m + 1 / 2) * sqrt 2"
    and "r = real_of_int m / 100"
  shows "scale_score (Num x) = Num r"
proof -
  have pos: "0 < sqrt (2 :: real)"
    by simp
  have "real_of_int m - 1 / 2 \<le> x * 100 / sqrt 2"
    using assms(1) pos by (simp add: pos_le_divide_eq)
  moreover have "x * 100 / sqrt 2 < real_of_int m + 1 / 2"
    using assms(2) pos by (simp add: pos_divide_less_eq)
  moreover have "x / sqrt 2 * 100 = x * 100 / sqrt 2"
    by simp
  ultimately have "\<lfloor>x / sqrt 2 * 100 + 1 / 2\<rfloor> = m"
    by (intro floor_unique) linarith+
  then show ?thesis
    using assms(3) by (simp add: scale_score_def dK_def)
qed

lemma SS0_This:
  "map scale_score [Num 0.71, Num 1.37, Num 1.4, Num 1.68, Num 1.68]
     = [Num 0.5, Num 0.97, Num 0.99, Num 1.19, Num 1.19]"
proof -
  have "scale_score (Num 0.71) = Num 0.5"
    using sqrt2_bounds by (intro scaleI [where m = 50]) simp_all
  moreover have "scale_score (Num 1.37) = Num 0.97"
    using sqrt2_bounds by (intro scaleI [where m = 97]) simp_all
  moreover have "scale_score (Num 1.4) = Num 0.99"
    using sqrt2_bounds by (intro scaleI [where m = 99]) simp_all
  moreover have "scale_score (Num 1.68) = Num 1.19"
    using sqrt2_bounds by (intro scaleI [where m = 119]) simp_all
  ultimately show ?thesis
    unfolding list.map by (simp only:)
qed


lemma half_up3I:
  assumes "0 < S" "(real_of_int k - 1 / 2) * S \<le> e * 1000" "e * 1000 < (real_of_int k + 1 / 2) * S"
    and "r = real_of_int k / 1000"
  shows "half_up 3 (e / S) = r"
proof -
  have "real_of_int k - 1 / 2 \<le> e * 1000 / S"
    using assms(1,2) by (simp add: pos_le_divide_eq)
  moreover have "e * 1000 / S < real_of_int k + 1 / 2"
    using assms(1,3) by (simp add: pos_divide_less_eq)
  moreover have "e / S * 10 ^ 3 = e * 1000 / S"
    by simp
  ultimately have "\<lfloor>e / S * 10 ^ 3 + 1 / 2\<rfloor> = k"
    by (intro floor_unique) linarith+
  then show ?thesis
    using assms(4) by (simp add: half_up_def)
qed

lemma softmax_This:
  "softmax [Num 0.5, Num 0.97, Num 0.99, Num 1.19, Num 1.19]
     = [Num 0.122, Num 0.195, Num 0.199, Num 0.243, Num 0.243]"
proof -
  define ys :: "real list" where "ys = [0.5, 0.97, 0.99, 1.19, 1.19]"
  define e1 :: real where "e1 = exp (- 69 / 100)"
  define e2 :: real where "e2 = exp (- 11 / 50)"
  define e3 :: real where "e3 = exp (- 1 / 5)"
  define S where "S = e1 + (e2 + (e3 + (1 + (1 + 0))))"
  have b: "50157 / 100000 \<le> e1" "e1 \<le> 25079 / 50000"
      "80251 / 100000 \<le> e2" "e2 \<le> 20063 / 25000"
      "81873 / 100000 \<le> e3" "e3 \<le> 40937 / 50000"
    unfolding e1_def e2_def e3_def by (rule exp_69 exp_22 exp_20)+
  have Spos: "0 < S"
    using b by (simp add: S_def)
  have m: "foldl max (hd ys) (tl ys) = 1.19"
    by (simp add: ys_def)
  have d: "(0.5 :: real) - 1.19 = - 69 / 100" "(0.97 :: real) - 1.19 = - 11 / 50"
      "(0.99 :: real) - 1.19 = - 1 / 5" "(1.19 :: real) - 1.19 = 0"
    by simp_all
  have "softmax (map Num ys) = map (\<lambda>y. Num (half_up 3 (exp (y - 1.19) / (\<Sum>z\<leftarrow>ys. exp (z - 1.19))))) ys"
    using softmax_Num [of ys] unfolding m by (simp add: ys_def)
  then have sm: "softmax [Num 0.5, Num 0.97, Num 0.99, Num 1.19, Num 1.19]
      = [Num (half_up 3 (e1 / S)), Num (half_up 3 (e2 / S)), Num (half_up 3 (e3 / S)),
         Num (half_up 3 (1 / S)), Num (half_up 3 (1 / S))]"
    unfolding ys_def list.map sum_list.Cons sum_list.Nil d exp_zero e1_def e2_def e3_def S_def .
  have "half_up 3 (e1 / S) = 0.122"
    using b by (intro half_up3I [where k = 122] Spos) (simp_all add: S_def)
  moreover have "half_up 3 (e2 / S) = 0.195"
    using b by (intro half_up3I [where k = 195] Spos) (simp_all add: S_def)
  moreover have "half_up 3 (e3 / S) = 0.199"
    using b by (intro half_up3I [where k = 199] Spos) (simp_all add: S_def)
  moreover have "half_up 3 (1 / S) = 0.243"
    using b by (intro half_up3I [where k = 243] Spos) (simp_all add: S_def)
  ultimately show ?thesis
    unfolding sm by (simp only:)
qed


lemma attention_row:
  assumes "i < length (tokens X)"
  shows "s_attentionWeights (projr (attention X)) ! i
     = softmax (map scale_score
         (mmul (mmul (embeddings (tokens X)) WQ) (transposeK (mmul (embeddings (tokens X)) WK)) ! i))"
proof -
  define E where "E = embeddings (tokens X)"
  have En: "length E = length (tokens X)"
    by (simp add: E_def length_embeddings)
  then have Ene: "E \<noteq> []"
    using assms by auto
  have Q: "length (mmul E WQ) = length E" and K: "length (mmul E WK) = length E"
    by (simp_all add: length_mmul)
  have T: "transposeK (mmul E WK) \<noteq> []"
  proof -
    obtain r rs where "E = r # rs"
      using Ene by (cases E) auto
    then show ?thesis
      by (simp add: mmul_def WK_def transposeK_def upt2)
  qed
  have S: "length (mmul (mmul E WQ) (transposeK (mmul E WK))) = length E"
    using T by (simp add: length_mmul Q)
  have ne: "mmul E WQ \<noteq> []" "mmul E WK \<noteq> []" "mmul (mmul E WQ) (transposeK (mmul E WK)) \<noteq> []"
    using Q K S Ene by auto
  show ?thesis
    using assms ne Ene S En
    by (simp add: attention_eq Let_def E_def [symmetric] scaledScores_of_def attentionWeights_of_def)
qed

text \<open>
  Claim C1, as stated: for every non-empty token sequence, every row of the attention
  matrix has all entries in \<open>[0, 1]\<close> and sums to 1 within \<open>10\<^sup>-\<^sup>3\<close>, after each entry is
  rounded to 3 decimal places. The entries are in \<open>[0, 1]\<close>, but the sum is not that
  close: for \<^verbatim>\<open>This boy sees a cat\<close> the row of the first token is
  \<open>[0.122, 0.195, 0.199, 0.243, 0.243]\<close>, which sums to \<open>1.002\<close>. Each entry was rounded
  up, by \<open>0.00034\<close>, \<open>0.00035\<close>, \<open>0.00042\<close> and twice \<open>0.00045\<close>.
\<close>

theorem attention_row_sum_counterexample:
  "\<not> isl (attention (js ''This boy sees a cat''))
   \<and> s_attentionWeights (projr (attention (js ''This boy sees a cat''))) ! 0
     = [Num 0.122, Num 0.195, Num 0.199, Num 0.243, Num 0.243]
   \<and> \<not> \<bar>(0.122 + 0.195 + 0.199 + 0.243 + 0.243 :: real) - 1\<bar> \<le> 1 / 1000"
proof (intro conjI)
  show "\<not> isl (attention (js ''This boy sees a cat''))"
    by (simp add: attention_eq Let_def)
  have "s_attentionWeights (projr (attention (js ''This boy sees a cat''))) ! 0
      = softmax (map scale_score
          (mmul (mmul sentence_embeddings WQ) (transposeK sentence_keys) ! 0))"
    by (subst attention_row) (simp_all add: tokens_This embeddings_This K_This)
  also have "\<dots> = [Num 0.122, Num 0.195, Num 0.199, Num 0.243, Num 0.243]"
    unfolding S0_This SS0_This softmax_This ..
  finally show "s_attentionWeights (projr (attention (js ''This boy sees a cat''))) ! 0
     = [Num 0.122, Num 0.195, Num 0.199, Num 0.243, Num 0.243]" .
  show "\<not> \<bar>(0.122 + 0.195 + 0.199 + 0.243 + 0.243 :: real) - 1\<bar> \<le> 1 / 1000"
    by simp
qed

section \<open>What the attention rows do satisfy\<close>

lemma row_of_nums:
  "(\<forall>j < length r. \<exists>x. r ! j = Num x) \<Longrightarrow> \<exists>ys. r = map Num ys"
proof (induction r)
  case Nil
  then show ?case by simp
next
  case (Cons v r)
  have "\<forall>j < length r. \<exists>x. r ! j = Num x"
    using Cons.prems by fastforce
  then obtain ys where "r = map Num ys"
    using Cons.IH by blast
  moreover obtain x where "v = Num x"
    using Cons.prems by fastforce
  ultimately have "v # r = map Num (x # ys)"
    by simp
  then show ?case
    by (rule exI)
qed

text \<open>
  Claim C1, amended: for every token sequence of \<open>n\<close> tokens, no stage throws, and every
  row of the attention matrix has \<open>n\<close> entries, all in \<open>[0, 1]\<close>, and sums to 1 within
  \<open>n \<times> 0.0005\<close>, half a unit of the third decimal place for each rounded entry.
\<close>

theorem attention_rows_near_one:
  "\<exists>st. attention inputText = Inr st
     \<and> length (s_attentionWeights st) = length (tokens inputText)
     \<and> (\<forall>r \<in> set (s_attentionWeights st).
          \<exists>ps. r = map Num ps \<and> length ps = length (tokens inputText)
            \<and> (\<forall>p \<in> set ps. 0 \<le> p \<and> p \<le> 1)
            \<and> \<bar>sum_list ps - 1\<bar> \<le> real (length (tokens inputText)) / 2000)"
proof -
  define n where "n = length (tokens inputText)"
  obtain st where st: "attention inputText = Inr st"
      "length (s_scaledScores st) = n"
      "s_attentionWeights st = map softmax (s_scaledScores st)"
      "\<forall>i < n. \<forall>j < n. length (s_scaledScores st ! i) = n
          \<and> (\<exists>x. s_scaledScores st ! i ! j = Num x)"
    using attention_scores [of inputText] unfolding n_def by blast
  have "\<exists>ps. r = map Num ps \<and> length ps = n \<and> (\<forall>p \<in> set ps. 0 \<le> p \<and> p \<le> 1)
            \<and> \<bar>sum_list ps - 1\<bar> \<le> real n / 2000"
    if r: "r \<in> set (s_attentionWeights st)" for r
  proof -
    obtain i where i: "i < n" "r = softmax (s_scaledScores st ! i)"
      using r st(2,3) by (auto simp: in_set_conv_nth)
    have len: "length (s_scaledScores st ! i) = n"
      using st(4) i(1) by blast
    have "\<forall>j < length (s_scaledScores st ! i). \<exists>x. s_scaledScores st ! i ! j = Num x"
      using st(4) i(1) len by simp
    then obtain ys where ys: "s_scaledScores st ! i = map Num ys"
      using row_of_nums by blast
    have yn: "length ys = n"
      using len ys by simp
    then have "ys \<noteq> []"
      using i(1) by auto
    then obtain ps where "softmax (map Num ys) = map Num ps" "length ps = length ys"
        "\<forall>p \<in> set ps. 0 \<le> p \<and> p \<le> 1" "\<bar>sum_list ps - 1\<bar> \<le> real (length ys) / 2000"
      using softmax_row_props by blast
    then show ?thesis
      using i(2) ys yn by auto
  qed
  then show ?thesis
    using st(1,2,3) by (intro exI [of _ st]) (simp add: n_def)
qed

theorem attention_rows_near_one_witness:
  "\<exists>st ps. attention (js ''This boy sees a cat'') = Inr st
     \<and> length (s_attentionWeights st) = 5
     \<and> s_attentionWeights st ! 0 = map Num ps \<and> length ps = 5
     \<and> (\<forall>p \<in> set ps. 0 \<le> p \<and> p \<le> 1)
     \<and> \<bar>sum_list ps - 1\<bar> \<le> 5 / 2000"
proof -
  have n: "length (tokens (js ''This boy sees a cat'')) = 5"
    by (simp add: tokens_This)
  obtain st where st: "attention (js ''This boy sees a cat'') = Inr st"
      "length (s_attentionWeights st) = 5"
      "\<forall>r \<in> set (s_attentionWeights st).
          \<exists>ps. r = map Num ps \<and> length ps = 5
            \<and> (\<forall>p \<in> set ps. 0 \<le> p \<and> p \<le> 1)
            \<and> \<bar>sum_list ps - 1\<bar> \<le> real 5 / 2000"
    using attention_rows_near_one [of "js ''This boy sees a cat''"] unfolding n by blast
  have "s_attentionWeights st ! 0 \<in> set (s_attentionWeights st)"
    using st(2) by simp
  then obtain ps where "s_attentionWeights st ! 0 = map Num ps" "length ps = 5"
      "\<forall>p \<in> set ps. 0 \<le> p \<and> p \<le> 1" "\<bar>sum_list ps - 1\<bar> \<le> real 5 / 2000"
    using st(3) by blast
  then show ?thesis
    using st(1,2) by (intro exI [of _ st] exI [of _ ps]) simp
qed

section \<open>The embedder and the rounding of the specification\<close>







section \<open>Facts about rounding to a double\<close>

lemma pow2_pos [simp]: "0 < pow2 e"
  by (simp add: pow2_def)

lemma pow2_nonzero [simp]: "pow2 e \<noteq> 0"
  by (simp add: pow2_def)

lemma pow2_Suc: "pow2 (e + 1) = 2 * pow2 e"
proof (cases "0 \<le> e")
  case True
  then show ?thesis by (simp add: pow2_def nat_add_distrib)
next
  case False
  then have "nat (- e) = Suc (nat (- (e + 1)))" by simp
  then have "(2::real) ^ nat (- e) = 2 * 2 ^ nat (- (e + 1))" by simp
  then show ?thesis using False by (simp add: pow2_def)
qed

lemma pow2_pred: "pow2 (e - 1) = pow2 e / 2"
  using pow2_Suc [of "e - 1"] by simp

lemma pow2_mono: "a \<le> b \<Longrightarrow> pow2 a \<le> pow2 b"
proof -
  assume "a \<le> b"
  then obtain n where b: "b = a + int n"
    using zle_iff_zadd by auto
  have "pow2 a \<le> pow2 (a + int n)"
  proof (induction n)
    case 0
    then show ?case by simp
  next
    case (Suc n)
    have "a + int (Suc n) = a + int n + 1"
      by simp
    then have "pow2 (a + int (Suc n)) = 2 * pow2 (a + int n)"
      by (simp only: pow2_Suc)
    moreover have "0 < pow2 (a + int n)" by simp
    ultimately show ?case using Suc by linarith
  qed
  then show ?thesis by (simp add: b)
qed

lemma ilog2_bounds: "0 < x \<Longrightarrow> pow2 (ilog2 x) \<le> x \<and> x < pow2 (ilog2 x + 1)"
proof (induction x rule: ilog2.induct)
  case (1 x)
  show ?case
  proof (cases "2 \<le> x")
    case True
    then have "pow2 (ilog2 (x / 2)) \<le> x / 2 \<and> x / 2 < pow2 (ilog2 (x / 2) + 1)"
      using 1 by simp
    moreover have "ilog2 x = ilog2 (x / 2) + 1"
      using True by (subst ilog2.simps) simp
    ultimately show ?thesis
      using pow2_Suc [of "ilog2 (x / 2)"] pow2_Suc [of "ilog2 (x / 2) + 1"] by simp
  next
    case False
    show ?thesis
    proof (cases "x < 1")
      case True
      then have "pow2 (ilog2 (x * 2)) \<le> x * 2 \<and> x * 2 < pow2 (ilog2 (x * 2) + 1)"
        using 1 False by simp
      moreover have "ilog2 x = ilog2 (x * 2) - 1"
        using True False 1(3) by (subst ilog2.simps) simp
      ultimately show ?thesis
        using pow2_pred [of "ilog2 (x * 2)"] pow2_Suc [of "ilog2 (x * 2)"] by simp
    next
      case ge: False
      then have "ilog2 x = 0"
        using False 1(3) by (subst ilog2.simps) simp
      then show ?thesis
        using False ge by (simp add: pow2_def)
    qed
  qed
qed

lemma rne_close: "\<bar>of_int (rne r) - r\<bar> \<le> 1 / 2"
proof -
  have "of_int \<lfloor>r\<rfloor> \<le> r" "r < of_int \<lfloor>r\<rfloor> + 1"
    by linarith+
  then show ?thesis
    by (auto simp: rne_def nearest_even_def)
qed

lemma rnd_error:
  assumes "\<bar>x\<bar> \<le> pow2 k" "- 1022 \<le> k"
  shows "\<bar>rnd x - x\<bar> \<le> pow2 (k - 53)"
proof (cases "x = 0")
  case True
  then show ?thesis by (simp add: rnd_def less_imp_le)
next
  case False
  define q where "q = max (ilog2 \<bar>x\<bar>) (- 1022) - 52"
  have "pow2 (ilog2 \<bar>x\<bar>) \<le> \<bar>x\<bar>"
    using ilog2_bounds [of "\<bar>x\<bar>"] False by simp
  then have "pow2 (ilog2 \<bar>x\<bar>) \<le> pow2 k"
    using assms(1) by linarith
  then have "ilog2 \<bar>x\<bar> \<le> k"
  proof -
    have "\<not> k < ilog2 \<bar>x\<bar>"
    proof
      assume "k < ilog2 \<bar>x\<bar>"
      then have "pow2 (k + 1) \<le> pow2 (ilog2 \<bar>x\<bar>)" by (intro pow2_mono) simp
      moreover have "pow2 (k + 1) = 2 * pow2 k" by (rule pow2_Suc)
      moreover have "0 < pow2 k" by simp
      moreover note \<open>pow2 (ilog2 \<bar>x\<bar>) \<le> pow2 k\<close>
      ultimately show False by linarith
    qed
    then show ?thesis by simp
  qed
  then have qk: "q \<le> k - 52"
    using assms(2) by (simp add: q_def)
  have r: "rnd x = of_int (rne (x / pow2 q)) * pow2 q"
    using False by (simp add: rnd_def q_def quantize_def)
  have "\<bar>of_int (rne (x / pow2 q)) - x / pow2 q\<bar> \<le> 1 / 2"
    by (rule rne_close)
  then have "\<bar>of_int (rne (x / pow2 q)) - x / pow2 q\<bar> * pow2 q \<le> 1 / 2 * pow2 q"
    by (intro mult_right_mono) (simp_all add: less_imp_le)
  moreover have "\<bar>of_int (rne (x / pow2 q)) - x / pow2 q\<bar> * pow2 q = \<bar>rnd x - x\<bar>"
  proof -
    have "\<bar>of_int (rne (x / pow2 q)) - x / pow2 q\<bar> * pow2 q
        = \<bar>(of_int (rne (x / pow2 q)) - x / pow2 q) * pow2 q\<bar>"
      by (simp add: abs_mult less_imp_le)
    also have "(of_int (rne (x / pow2 q)) - x / pow2 q) * pow2 q = rnd x - x"
    proof -
      show ?thesis
        by (simp add: r left_diff_distrib)
    qed
    finally show ?thesis .
  qed
  ultimately have "\<bar>rnd x - x\<bar> \<le> pow2 q / 2"
    by simp
  also have "\<dots> = pow2 (q - 1)"
    by (simp add: pow2_pred)
  also have "\<dots> \<le> pow2 (k - 53)"
    using qk by (intro pow2_mono) simp
  finally show ?thesis .
qed

lemma dbl_finite:
  assumes "\<bar>x\<bar> \<le> pow2 k" "- 1022 \<le> k" "k \<le> 1023"
  shows "dbl x = Dbl (rnd x)"
proof -
  have "\<bar>rnd x - x\<bar> \<le> pow2 (k - 53)"
    using assms by (intro rnd_error)
  then have "\<bar>rnd x\<bar> \<le> pow2 k + pow2 (k - 53)"
    using assms(1) by linarith
  moreover have "pow2 (k - 53) \<le> pow2 (k - 1)"
    by (intro pow2_mono) simp
  moreover have "pow2 (k - 1) = pow2 k / 2"
    by (rule pow2_pred)
  moreover have "0 < pow2 k"
    by simp
  ultimately have "\<bar>rnd x\<bar> < 2 * pow2 k"
    by linarith
  also have "\<dots> = pow2 (k + 1)"
    by (simp add: pow2_Suc)
  also have "\<dots> \<le> pow2 1024"
    using assms(3) by (intro pow2_mono) simp
  also have "pow2 1024 = 2 ^ 1024"
    by (simp add: pow2_def)
  finally have "\<not> 2 ^ 1024 \<le> rnd x" "\<not> rnd x \<le> - (2 ^ 1024)"
    by linarith+
  then show ?thesis
    by (simp add: dbl_def finite_or_infinity_def)
qed


lemma finite_or_infinity_small: "\<bar>y\<bar> \<le> 2 ^ 64 \<Longrightarrow> finite_or_infinity y = Dbl y"
proof -
  assume a: "\<bar>y\<bar> \<le> 2 ^ 64"
  have "(2::real) ^ 64 < 2 ^ 1024"
    by (rule power_strict_increasing) simp_all
  then have "\<not> 2 ^ 1024 \<le> y" "\<not> y \<le> - (2 ^ 1024)"
    using a by linarith+
  then show ?thesis
    by (simp add: finite_or_infinity_def)
qed

lemmas dbl_eval = dbl_def finite_or_infinity_small rnd_def quantize_def ilog2.simps pow2_def
  rne_def nearest_even_def

section \<open>Facts about matrix multiplication in double precision\<close>

lemma add64_NaN [simp]: "add64 v NotANumber = NotANumber" "add64 NotANumber v = NotANumber"
  by (cases v; simp)+

lemma mul64_NaN [simp]: "mul64 v NotANumber = NotANumber" "mul64 NotANumber v = NotANumber"
  by (cases v; simp add: mul64_def)+

lemma round2_64_NaN [simp]: "round2_64 NotANumber = NotANumber"
  by (simp add: round2_64_def div64_def)

lemma numeric_toNumber: "numeric v \<Longrightarrow> toNumber v = Some (num64 v)"
  by (auto simp: numeric_def num64_def)

lemma numeric_at64: "\<forall>v \<in> set r. numeric v \<Longrightarrow> numeric (at64 r k)"
  by (simp add: at64_def numeric_def)

lemma mulAdd_numeric:
  "numeric a \<Longrightarrow> numeric b \<Longrightarrow> mulAdd acc a b = Inr (add64 acc (mul64 (num64 a) (num64 b)))"
  by (simp add: mulAdd_def numeric_toNumber)

lemma matMul64_k_numeric:
  assumes "\<forall>v \<in> set Ai. numeric v" "\<forall>r \<in> set B. \<forall>v \<in> set r. numeric v" "k \<le> length B"
  shows "matMul64_k Ai (map Some (drop k B)) k j acc =
     Inr (foldl (\<lambda>acc k. add64 acc (mul64 (num64 (at64 Ai k)) (num64 (at64 (B ! k) j)))) acc
            [k..<length B])"
  using assms(3)
proof (induction "length B - k" arbitrary: k acc)
  case 0
  then show ?case by simp
next
  case (Suc n)
  then have k: "k < length B"
    by simp
  then have d: "drop k B = B ! k # drop (Suc k) B"
    by (simp add: Cons_nth_drop_Suc)
  have "B ! k \<in> set B"
    using k by simp
  then have "\<forall>v \<in> set (B ! k). numeric v"
    using assms(2) by blast
  then have "numeric (at64 Ai k)" "numeric (at64 (B ! k) j)"
    using assms(1) by (simp_all add: numeric_at64)
  then have m: "mulAdd acc (at64 Ai k) (at64 (B ! k) j)
      = Inr (add64 acc (mul64 (num64 (at64 Ai k)) (num64 (at64 (B ! k) j))))"
    by (rule mulAdd_numeric)
  have "n = length B - Suc k" "Suc k \<le> length B"
    using Suc(2) k by simp_all
  then have ih: "matMul64_k Ai (map Some (drop (Suc k) B)) (Suc k) j acc' =
     Inr (foldl (\<lambda>acc k. add64 acc (mul64 (num64 (at64 Ai k)) (num64 (at64 (B ! k) j)))) acc'
            [Suc k..<length B])" for acc'
    using Suc(1) by blast
  show ?case
    using k by (simp add: d m ih upt_conv_Cons)
qed

lemma matMul64_k_cell:
  assumes "\<forall>v \<in> set Ai. numeric v" "\<forall>r \<in> set B. \<forall>v \<in> set r. numeric v"
  shows "matMul64_k Ai (map Some B) 0 j (Dbl 0) = Inr (cell64 Ai B j)"
  using matMul64_k_numeric [OF assms, of 0 j "Dbl 0"] by (simp add: cell64_def)

lemma matMul64_j_numeric:
  assumes "\<forall>v \<in> set Ai. numeric v" "\<forall>r \<in> set B. \<forall>v \<in> set r. numeric v"
  shows "matMul64_j (Some Ai) (map Some B) cols = Inr (map (cell64 Ai B) cols)"
  by (induction cols) (simp_all add: matMul64_k_cell [OF assms])

lemma matMul64_i_numeric:
  assumes "\<forall>r \<in> set A. \<forall>v \<in> set r. numeric v" "\<forall>r \<in> set B. \<forall>v \<in> set r. numeric v"
  shows "matMul64_i (map Some A) (map Some B) n =
     Inr (map (\<lambda>Ai. map (cell64 Ai B) [0..<n]) A)"
  using assms(1)
proof (induction A)
  case Nil
  then show ?case by simp
next
  case (Cons Ai A)
  then show ?case
    using matMul64_j_numeric [of Ai B "[0..<n]"] assms(2) by simp
qed

lemma matMul64_numeric:
  assumes "a \<noteq> []" "b \<noteq> []"
    and "\<forall>r \<in> set a. \<forall>v \<in> set r. numeric v" "\<forall>r \<in> set b. \<forall>v \<in> set r. numeric v"
  shows "matMul64 (arr64 a) (arr64 b) =
     Inr (map (\<lambda>Ai. map (\<lambda>j. round2_64 (cell64 Ai b j)) [0..<length (hd b)]) a)"
proof -
  obtain A0 As where a: "a = A0 # As"
    using assms(1) by (cases a) auto
  obtain B0 Bs where b: "b = B0 # Bs"
    using assms(2) by (cases b) auto
  have "matMul64_i (Some A0 # map Some As) (Some B0 # map Some Bs) (length B0)
      = Inr (map (\<lambda>Ai. map (cell64 Ai b) [0..<length B0]) a)"
    using matMul64_i_numeric [OF assms(3,4), of "length B0"] by (simp add: a b)
  then show ?thesis
    by (simp add: matMul64_def arr64_def a b comp_def)
qed

lemma foldl_NaN:
  "foldl (\<lambda>acc k. add64 acc (f k)) NotANumber ks = NotANumber"
  by (induction ks) simp_all

lemma foldl_hits_NaN:
  "k \<in> set ks \<Longrightarrow> f k = NotANumber \<Longrightarrow> foldl (\<lambda>acc k. add64 acc (f k)) acc ks = NotANumber"
proof (induction ks arbitrary: acc)
  case Nil
  then show ?case by simp
next
  case (Cons x ks)
  show ?case
  proof (cases "x = k")
    case True
    then show ?thesis using Cons.prems(2) by (simp add: foldl_NaN)
  next
    case False
    then show ?thesis using Cons by simp
  qed
qed

lemma cell64_short: "length Ai < length B \<Longrightarrow> cell64 Ai B j = NotANumber"
proof -
  assume l: "length Ai < length B"
  have "num64 (at64 Ai (length Ai)) = NotANumber"
    by (simp add: at64_def num64_def)
  then have "mul64 (num64 (at64 Ai (length Ai))) (num64 (at64 (B ! length Ai) j)) = NotANumber"
    by simp
  moreover have "length Ai \<in> set [0..<length B]"
    using l by simp
  ultimately show ?thesis
    unfolding cell64_def
    using foldl_hits_NaN [where f = "\<lambda>k. mul64 (num64 (at64 Ai k)) (num64 (at64 (B ! k) j))"
        and k = "length Ai" and ks = "[0..<length B]" and acc = "Dbl 0"]
    by blast
qed

lemma cell64_take: "cell64 (take (length B) Ai) B j = cell64 Ai B j"
proof -
  have "foldl (\<lambda>acc k. add64 acc (mul64 (num64 (at64 (take (length B) Ai) k)) (num64 (at64 (B ! k) j)))) acc ks
      = foldl (\<lambda>acc k. add64 acc (mul64 (num64 (at64 Ai k)) (num64 (at64 (B ! k) j)))) acc ks"
    if "\<forall>k \<in> set ks. k < length B" for acc ks
    using that by (induction ks arbitrary: acc) (simp_all add: at64_def)
  then show ?thesis
    by (simp add: cell64_def)
qed

lemma round2_64_cases:
  "round2_64 v = NotANumber \<or> round2_64 v = PosInf \<or> round2_64 v = NegInf
     \<or> (\<exists>n::int. round2_64 v = dbl (of_int n / 100))"
proof (cases "mul64 v (Dbl 100)")
  case (Dbl p)
  then show ?thesis
    by (auto simp: round2_64_def div64_def)
next
  case PosInf
  then show ?thesis
    by (simp add: round2_64_def div64_def infinity_of_def)
next
  case NegInf
  then show ?thesis
    by (simp add: round2_64_def div64_def infinity_of_def)
next
  case NotANumber
  then show ?thesis
    by (simp add: round2_64_def div64_def)
qed

lemma matMul64_BigInt_throws:
  "matMul64 (arr64 [[BigInt 1]]) (arr64 [[Number (Dbl 1)]]) = Inl TypeError"
  "matMul64 (arr64 [[Symbol]]) (arr64 [[Number (Dbl 1)]]) = Inl TypeError"
  by (simp_all add: matMul64_def arr64_def at64_def mulAdd_def)

text \<open>
  Claim C10, as stated: the matrix-multiply utility is total, it never throws for any
  pair of arguments. It throws on an array one of whose later rows is missing: the
  guard looks at the first row only, and the loop reads \<^verbatim>\<open>A[1][0]\<close> of the missing
  row \<^verbatim>\<open>A[1]\<close>.
\<close>

theorem matMul_missing_row_counterexample:
  "matMul64 (Some [Some [Number (Dbl 1)], None]) (Some [Some [Number (Dbl 1)]]) = Inl TypeError"
  by (simp add: matMul64_def at64_def mulAdd_def mul64_def dbl_eval)

text \<open>
  Claim C10, amended: the matrix-multiply utility returns the empty matrix whenever
  \<open>A\<close> or \<open>B\<close> is null, is empty or has its first row missing; and whenever every row
  of \<open>A\<close> and of \<open>B\<close> is an array that holds only numbers (\<open>NaN\<close> and the infinities
  among them) or \<^verbatim>\<open>undefined\<close>, it does not throw and returns a matrix with exactly
  \<^verbatim>\<open>A.length\<close> rows and \<^verbatim>\<open>B[0].length\<close> columns, each element \<open>NaN\<close>, an infinity, or
  the double nearest to a number of 2 decimal places.
\<close>

theorem matMul_total_when_rows_numeric:
  "((A = None \<or> B = None \<or> A = Some [] \<or> B = Some []
      \<or> (\<exists>As. A = Some (None # As)) \<or> (\<exists>Bs. B = Some (None # Bs)))
     \<longrightarrow> matMul64 A B = Inr [])
   \<and> (a \<noteq> [] \<and> b \<noteq> []
        \<and> (\<forall>r \<in> set a \<union> set b. \<forall>v \<in> set r. v = Undefined \<or> (\<exists>d. v = Number d)) \<longrightarrow>
       (\<exists>M. matMul64 (arr64 a) (arr64 b) = Inr M \<and> length M = length a
          \<and> (\<forall>r \<in> set M. length r = length (hd b)
               \<and> (\<forall>v \<in> set r. v = NotANumber \<or> v = PosInf \<or> v = NegInf
                     \<or> (\<exists>n::int. v = dbl (of_int n / 100))))))"
proof (intro conjI impI)
  assume "A = None \<or> B = None \<or> A = Some [] \<or> B = Some []
      \<or> (\<exists>As. A = Some (None # As)) \<or> (\<exists>Bs. B = Some (None # Bs))"
  then show "matMul64 A B = Inr []"
    by (auto simp: matMul64_def split: option.splits list.splits)
next
  assume ab: "a \<noteq> [] \<and> b \<noteq> []
        \<and> (\<forall>r \<in> set a \<union> set b. \<forall>v \<in> set r. v = Undefined \<or> (\<exists>d. v = Number d))"
  define M where "M = map (\<lambda>Ai. map (\<lambda>j. round2_64 (cell64 Ai b j)) [0..<length (hd b)]) a"
  have na: "\<forall>r \<in> set a. \<forall>v \<in> set r. numeric v" and nb: "\<forall>r \<in> set b. \<forall>v \<in> set r. numeric v"
    using ab by (auto simp: numeric_def)
  have "matMul64 (arr64 a) (arr64 b) = Inr M"
    unfolding M_def using ab na nb by (intro matMul64_numeric) simp_all
  moreover have "length M = length a"
    by (simp add: M_def)
  moreover have "\<forall>r \<in> set M. length r = length (hd b)
       \<and> (\<forall>v \<in> set r. v = NotANumber \<or> v = PosInf \<or> v = NegInf
             \<or> (\<exists>n::int. v = dbl (of_int n / 100)))"
    unfolding M_def using round2_64_cases by auto
  ultimately show "\<exists>M. matMul64 (arr64 a) (arr64 b) = Inr M \<and> length M = length a
          \<and> (\<forall>r \<in> set M. length r = length (hd b)
               \<and> (\<forall>v \<in> set r. v = NotANumber \<or> v = PosInf \<or> v = NegInf
                     \<or> (\<exists>n::int. v = dbl (of_int n / 100))))"
    by blast
qed

theorem matMul_total_when_rows_numeric_witness:
  "matMul64 None (arr64 [[Number (Dbl 1)]]) = Inr []
   \<and> matMul64 (arr64 [[Number (Dbl 1), Number (Dbl 2)]]) (arr64 [[Number (Dbl 3)], [Number (Dbl 4)]])
       = Inr [[Dbl 11]]
   \<and> matMul64 (arr64 [[Number PosInf], [Undefined]]) (arr64 [[Number (Dbl 1)]])
       = Inr [[PosInf], [NotANumber]]"
proof -
  have 1: "matMul64 (arr64 [[Number (Dbl 1), Number (Dbl 2)]])
      (arr64 [[Number (Dbl 3)], [Number (Dbl 4)]]) = Inr [[Dbl 11]]"
    by (simp add: matMul64_def arr64_def at64_def mulAdd_def round2_64_def mul64_def div64_def
        dbl_eval)
  have 2: "matMul64 (arr64 [[Number PosInf], [Undefined]]) (arr64 [[Number (Dbl 1)]])
       = Inr [[PosInf], [NotANumber]]"
    by (simp add: matMul64_def arr64_def at64_def mulAdd_def round2_64_def mul64_def div64_def
        infinity_of_def)
  have 3: "matMul64 None (arr64 [[Number (Dbl 1)]]) = Inr []"
    using matMul_total_when_rows_numeric [of None "arr64 [[Number (Dbl 1)]]"
      "[[Number (Dbl 1), Number (Dbl 2)]]" "[[Number (Dbl 3)], [Number (Dbl 4)]]"]
    by blast
  show ?thesis
    using 1 2 3 by (intro conjI)
qed

text \<open>
  Claim C9, as stated: given operands with mismatched inner dimensions, the
  matrix-multiply utility fails fast with an error rather than silently producing
  numbers. The source validates nothing: a row of three numbers times a matrix of two
  rows returns a number, the third entry ignored.
\<close>

theorem matMul_mismatch_counterexample:
  "matMul64 (arr64 (rows64 [[Dbl 1, Dbl 2, Dbl 3]])) (arr64 (rows64 [[Dbl 1], [Dbl 1]]))
     = Inr [[Dbl 3]]"
  by (simp add: matMul64_def arr64_def rows64_def at64_def mulAdd_def round2_64_def mul64_def
      div64_def dbl_eval)

text \<open>
  Claim C9, amended: the matrix-multiply utility does not check the inner dimensions
  and raises no error on a mismatch. With every row present and holding numbers, the
  element \<open>(i, j)\<close> of the result is the rounded sum of \<^verbatim>\<open>A[i][k] * B[k][j]\<close> over \<open>k\<close>
  below \<^verbatim>\<open>B.length\<close>, the products added in that order in double precision: the
  entries of a row of \<open>A\<close> beyond \<^verbatim>\<open>B.length\<close> are ignored, and a row of \<open>A\<close> shorter
  than \<^verbatim>\<open>B.length\<close> makes its elements \<open>NaN\<close>.
\<close>

theorem matMul_no_dimension_check:
  "a \<noteq> [] \<and> b \<noteq> []
     \<and> (\<forall>r \<in> set a \<union> set b. \<forall>v \<in> set r. v = Undefined \<or> (\<exists>d. v = Number d)) \<longrightarrow>
     (\<exists>M. matMul64 (arr64 a) (arr64 b) = Inr M
        \<and> (\<forall>i < length a. \<forall>j < length (hd b).
              M ! i ! j = round2_64
                (foldl (\<lambda>acc k. add64 acc (mul64 (num64 (at64 (a ! i) k)) (num64 (at64 (b ! k) j))))
                   (Dbl 0) [0..<length b])
              \<and> (length (a ! i) < length b \<longrightarrow> M ! i ! j = NotANumber))
        \<and> matMul64 (arr64 (map (take (length b)) a)) (arr64 b) = Inr M)"
proof
  assume ab: "a \<noteq> [] \<and> b \<noteq> []
     \<and> (\<forall>r \<in> set a \<union> set b. \<forall>v \<in> set r. v = Undefined \<or> (\<exists>d. v = Number d))"
  define M where "M = map (\<lambda>Ai. map (\<lambda>j. round2_64 (cell64 Ai b j)) [0..<length (hd b)]) a"
  have na: "\<forall>r \<in> set a. \<forall>v \<in> set r. numeric v" and nb: "\<forall>r \<in> set b. \<forall>v \<in> set r. numeric v"
    using ab by (auto simp: numeric_def)
  have nt: "\<forall>r \<in> set (map (take (length b)) a). \<forall>v \<in> set r. numeric v"
    using na by (auto dest: in_set_takeD)
  have 1: "matMul64 (arr64 a) (arr64 b) = Inr M"
    unfolding M_def using ab na nb by (intro matMul64_numeric) simp_all
  have "matMul64 (arr64 (map (take (length b)) a)) (arr64 b) =
      Inr (map (\<lambda>Ai. map (\<lambda>j. round2_64 (cell64 Ai b j)) [0..<length (hd b)])
            (map (take (length b)) a))"
    using ab nt nb by (intro matMul64_numeric) simp_all
  then have 2: "matMul64 (arr64 (map (take (length b)) a)) (arr64 b) = Inr M"
    by (simp add: M_def comp_def cell64_take)
  have 3: "\<forall>i < length a. \<forall>j < length (hd b).
              M ! i ! j = round2_64
                (foldl (\<lambda>acc k. add64 acc (mul64 (num64 (at64 (a ! i) k)) (num64 (at64 (b ! k) j))))
                   (Dbl 0) [0..<length b])
              \<and> (length (a ! i) < length b \<longrightarrow> M ! i ! j = NotANumber)"
    by (simp add: M_def cell64_short) (simp add: cell64_def)
  from 1 2 3 show "\<exists>M. matMul64 (arr64 a) (arr64 b) = Inr M
        \<and> (\<forall>i < length a. \<forall>j < length (hd b).
              M ! i ! j = round2_64
                (foldl (\<lambda>acc k. add64 acc (mul64 (num64 (at64 (a ! i) k)) (num64 (at64 (b ! k) j))))
                   (Dbl 0) [0..<length b])
              \<and> (length (a ! i) < length b \<longrightarrow> M ! i ! j = NotANumber))
        \<and> matMul64 (arr64 (map (take (length b)) a)) (arr64 b) = Inr M"
    by blast
qed

theorem matMul_no_dimension_check_witness:
  "matMul64 (arr64 (rows64 [[dbl 0.87, dbl 0.9, dbl 0.2, dbl 0.1, Dbl 7], [dbl 0.87]]))
       (arr64 (rows64 WQ64))
     = Inr [[dbl 0.6, dbl 0.57], [NotANumber, NotANumber]]
   \<and> matMul64 (arr64 (rows64 [[dbl 0.87, dbl 0.9, dbl 0.2, dbl 0.1], [dbl 0.87]]))
       (arr64 (rows64 WQ64))
     = Inr [[dbl 0.6, dbl 0.57], [NotANumber, NotANumber]]"
proof -
  define a where "a = rows64 [[dbl 0.87, dbl 0.9, dbl 0.2, dbl 0.1, Dbl 7], [dbl 0.87]]"
  have 1: "matMul64 (arr64 a) (arr64 (rows64 WQ64))
      = Inr [[dbl 0.6, dbl 0.57], [NotANumber, NotANumber]]"
    by (simp add: a_def matMul64_def arr64_def rows64_def WQ64_def at64_def mulAdd_def
        round2_64_def mul64_def div64_def upt_rec dbl_eval)
  have t: "map (take (length (rows64 WQ64))) a
      = rows64 [[dbl 0.87, dbl 0.9, dbl 0.2, dbl 0.1], [dbl 0.87]]"
    by (simp add: a_def rows64_def WQ64_def)
  have h: "a \<noteq> [] \<and> rows64 WQ64 \<noteq> []
     \<and> (\<forall>r \<in> set a \<union> set (rows64 WQ64). \<forall>v \<in> set r. v = Undefined \<or> (\<exists>d. v = Number d))"
    by (auto simp: a_def rows64_def WQ64_def)
  obtain M where M: "matMul64 (arr64 a) (arr64 (rows64 WQ64)) = Inr M"
      "matMul64 (arr64 (map (take (length (rows64 WQ64))) a)) (arr64 (rows64 WQ64)) = Inr M"
    using matMul_no_dimension_check [of a "rows64 WQ64"] h by blast
  have Meq: "M = [[dbl 0.6, dbl 0.57], [NotANumber, NotANumber]]"
    using M(1) 1 by simp
  have 2: "matMul64 (arr64 (rows64 [[dbl 0.87, dbl 0.9, dbl 0.2, dbl 0.1], [dbl 0.87]]))
      (arr64 (rows64 WQ64)) = Inr M"
    using M(2) by (simp only: t)
  show ?thesis
    using 1 2 unfolding Meq a_def by (intro conjI)
qed

section \<open>Facts about the pipeline in double precision\<close>

lemma numeric_rows64: "\<forall>r \<in> set (rows64 M). \<forall>v \<in> set r. numeric v"
  by (auto simp: rows64_def numeric_def)

lemma matMul64_rows:
  assumes "a \<noteq> []" "b \<noteq> []"
  shows "matMul64 (arr64 (rows64 a)) (arr64 (rows64 b)) =
     Inr (map (\<lambda>Ai. map (\<lambda>j. round2_64 (cell64 (map Number Ai) (rows64 b) j))
            [0..<length (hd b)]) a)"
proof -
  have "length (hd (rows64 b)) = length (hd b)"
    using assms(2) by (cases b) (simp_all add: rows64_def)
  moreover have "rows64 a \<noteq> []" "rows64 b \<noteq> []"
    using assms by (simp_all add: rows64_def)
  ultimately show ?thesis
    using matMul64_numeric [of "rows64 a" "rows64 b", OF _ _ numeric_rows64 numeric_rows64]
    by (simp add: rows64_def comp_def)
qed

lemma weights64_shape [simp]:
  "WQ64 \<noteq> []" "WK64 \<noteq> []" "WV64 \<noteq> []"
  "length (hd WQ64) = 2" "length (hd WK64) = 2" "length (hd WV64) = 2"
  by (simp_all add: WQ64_def WK64_def WV64_def)

lemma project64_eq:
  assumes "W \<noteq> []"
  shows "project64 emb W =
     Inr (map (\<lambda>Ai. map (\<lambda>j. round2_64 (cell64 (map Number Ai) (rows64 W) j))
            [0..<length (hd W)]) emb)"
  using assms by (cases "emb = []") (simp_all add: project64_def matMul64_rows)

lemma length_embeddings64: "length (embeddings64 L toks) = length toks"
  by (simp add: embeddings64_def)

lemma upt_2: "[0..<2] = [0, Suc 0]"
  by (simp add: upt_rec numeral_2_eq_2)

lemma transposeK64_2:
  assumes "K \<noteq> []" "\<forall>r \<in> set K. length r = 2"
  shows "transposeK64 K = [map (\<lambda>r. Number (r ! 0)) K, map (\<lambda>r. Number (r ! 1)) K]"
proof -
  obtain K0 Ks where K: "K = K0 # Ks"
    using assms(1) by (cases K) auto
  then have "length K0 = 2"
    using assms(2) by simp
  moreover have "map (\<lambda>r. at64 (map Number r) 0) K = map (\<lambda>r. Number (r ! 0)) K"
    "map (\<lambda>r. at64 (map Number r) (Suc 0)) K = map (\<lambda>r. Number (r ! 1)) K"
    using assms(2) by (auto simp: at64_def)
  ultimately show ?thesis
    by (simp add: transposeK64_def K upt_2)
qed

lemma numeric_transposeK64: "\<forall>r \<in> set (transposeK64 K). \<forall>v \<in> set r. numeric v"
  by (cases K) (auto simp: transposeK64_def at64_def numeric_def)

lemma score_cell:
  assumes "j < length K"
  shows "cell64 (map Number [q0, q1]) [map (\<lambda>r. Number (r ! 0)) K, map (\<lambda>r. Number (r ! 1)) K] j
     = add64 (add64 (Dbl 0) (mul64 q0 (K ! j ! 0))) (mul64 q1 (K ! j ! 1))"
  using assms by (simp add: cell64_def upt_2 at64_def num64_def)

lemma attention64_scores:
  "\<exists>st. attention64 L inputText = Inr st
     \<and> length (d_scores st) = length (tokens inputText)
     \<and> length (d_scaledScores st) = length (tokens inputText)
     \<and> d_tokens st = tokens inputText
     \<and> d_embeddings st = embeddings64 L (tokens inputText)
     \<and> d_Q st = map (\<lambda>Ai. map (\<lambda>j. round2_64 (cell64 (map Number Ai) (rows64 WQ64) j)) [0..<2])
                   (embeddings64 L (tokens inputText))
     \<and> d_K st = map (\<lambda>Ai. map (\<lambda>j. round2_64 (cell64 (map Number Ai) (rows64 WK64) j)) [0..<2])
                   (embeddings64 L (tokens inputText))
     \<and> d_attentionWeights st = map (softmax64 L) (d_scaledScores st)
     \<and> (\<forall>i < length (tokens inputText). \<forall>j < length (tokens inputText).
          length (d_scores st ! i) = length (tokens inputText)
        \<and> length (d_scaledScores st ! i) = length (tokens inputText)
        \<and> (\<exists>q0 q1 k0 k1. d_Q st ! i = [q0, q1] \<and> d_K st ! j = [k0, k1]
             \<and> d_scores st ! i ! j
                 = round2_64 (add64 (add64 (Dbl 0) (mul64 q0 k0)) (mul64 q1 k1))
             \<and> d_scaledScores st ! i ! j = scale_score64 (d_scores st ! i ! j)))"
proof -
  define toks where "toks = tokens inputText"
  define n where "n = length toks"
  define E where "E = embeddings64 L toks"
  define Q where "Q = map (\<lambda>Ai. map (\<lambda>j. round2_64 (cell64 (map Number Ai) (rows64 WQ64) j)) [0..<2]) E"
  define K where "K = map (\<lambda>Ai. map (\<lambda>j. round2_64 (cell64 (map Number Ai) (rows64 WK64) j)) [0..<2]) E"
  define V where "V = map (\<lambda>Ai. map (\<lambda>j. round2_64 (cell64 (map Number Ai) (rows64 WV64) j)) [0..<2]) E"
  define T where "T = [map (\<lambda>r. Number (r ! 0)) K, map (\<lambda>r. Number (r ! 1)) K]"
  define S where "S = map (\<lambda>Ai. map (\<lambda>j. round2_64 (cell64 (map Number Ai) T j)) [0..<n]) Q"
  define SS where "SS = map (map scale_score64) S"
  define AW where "AW = map (softmax64 L) SS"
  have En: "length E = n"
    by (simp add: E_def n_def length_embeddings64)
  have Qn: "length Q = n" and Kn: "length K = n" and Sn: "length S = n"
    by (simp_all add: Q_def K_def S_def En)
  have pQ: "project64 E WQ64 = Inr Q" and pK: "project64 E WK64 = Inr K"
    and pV: "project64 E WV64 = Inr V"
    by (simp_all add: project64_eq Q_def K_def V_def)
  have Krows: "\<forall>r \<in> set K. length r = 2"
    by (auto simp: K_def)
  have sc: "scores_of64 Q K = Inr S"
  proof (cases "n = 0")
    case True
    then show ?thesis
      using Qn Kn by (simp add: scores_of64_def S_def)
  next
    case False
    then have ne: "Q \<noteq> []" "K \<noteq> []"
      using Qn Kn by auto
    have tr: "transposeK64 K = T"
      unfolding T_def using ne(2) Krows by (rule transposeK64_2)
    have "rows64 Q \<noteq> []" "T \<noteq> []"
      using ne by (simp_all add: rows64_def T_def)
    then have "matMul64 (arr64 (rows64 Q)) (arr64 T) =
        Inr (map (\<lambda>Ai. map (\<lambda>j. round2_64 (cell64 Ai T j)) [0..<length (hd T)]) (rows64 Q))"
      using numeric_rows64 [of Q] numeric_transposeK64 [of K]
      by (intro matMul64_numeric) (simp_all add: tr)
    moreover have "length (hd T) = n"
      by (simp add: T_def Kn)
    ultimately show ?thesis
      using ne by (simp add: scores_of64_def tr S_def rows64_def comp_def)
  qed
  have ss: "scaledScores_of64 S = SS"
    by (cases "S = []") (simp_all add: scaledScores_of64_def SS_def)
  have aw: "attentionWeights_of64 L SS = AW"
    by (cases "SS = []") (simp_all add: attentionWeights_of64_def AW_def)
  obtain res where out: "output_of64 AW V = Inr res"
  proof (cases "AW = []")
    case True
    then show ?thesis
      using that by (simp add: output_of64_def)
  next
    case False
    then have "n \<noteq> 0"
      using Sn by (auto simp: AW_def SS_def)
    then have "V \<noteq> []"
      using En by (auto simp: V_def)
    then show ?thesis
      using that False by (simp add: output_of64_def matMul64_rows)
  qed
  have att: "attention64 L inputText =
      Inr \<lparr>d_tokens = toks, d_embeddings = E, d_Q = Q, d_K = K, d_V = V, d_scores = S,
           d_scaledScores = SS, d_attentionWeights = AW, d_output = res\<rparr>"
    by (simp add: attention64_def Let_def toks_def [symmetric] E_def [symmetric] pQ pK pV sc ss aw out)
  have Srow: "length (S ! i) = n" if "i < n" for i
    using that by (simp add: S_def Qn)
  have SSrow: "length (SS ! i) = n" if "i < n" for i
    using that Srow Sn by (simp add: SS_def)
  have entry: "\<exists>q0 q1 k0 k1. Q ! i = [q0, q1] \<and> K ! j = [k0, k1]
             \<and> S ! i ! j = round2_64 (add64 (add64 (Dbl 0) (mul64 q0 k0)) (mul64 q1 k1))
             \<and> SS ! i ! j = scale_score64 (S ! i ! j)"
    if ij: "i < n" "j < n" for i j
  proof -
    obtain q0 q1 where q: "Q ! i = [q0, q1]"
      using ij(1) En by (simp add: Q_def upt_2)
    obtain k0 k1 where k: "K ! j = [k0, k1]"
      using ij(2) En by (simp add: K_def upt_2)
    have "S ! i ! j = round2_64 (cell64 (map Number (Q ! i)) T j)"
      using ij Qn by (simp add: S_def)
    also have "cell64 (map Number (Q ! i)) T j
        = add64 (add64 (Dbl 0) (mul64 q0 (K ! j ! 0))) (mul64 q1 (K ! j ! 1))"
      unfolding q T_def using ij(2) Kn by (intro score_cell) simp
    finally have "S ! i ! j = round2_64 (add64 (add64 (Dbl 0) (mul64 q0 k0)) (mul64 q1 k1))"
      by (simp add: k)
    moreover have "SS ! i ! j = scale_score64 (S ! i ! j)"
      using ij Sn Srow by (simp add: SS_def)
    ultimately show ?thesis
      using q k by blast
  qed
  show ?thesis
    unfolding att using Sn Srow SSrow entry
    by (simp add: n_def toks_def SS_def Q_def K_def E_def AW_def)
qed

text \<open>
  Claim C4: the scorer computes \<open>Scores = Q \<times> K\<^sup>T\<close>, each row of \<open>Q\<close> dotted against
  each row of \<open>K\<close>, a \<open>seqLen \<times> seqLen\<close> matrix with each element rounded to 2 decimal
  places, and then \<open>ScaledScores[i][j] = Scores[i][j] / sqrt 2\<close>, rounded to 2 decimal
  places again, the division applied to the score already rounded. No stage throws.
  The arithmetic is that of the program: the two products of a dot product are added
  to 0 from left to right in double precision, \<open>sqrt 2\<close> is the double nearest to it,
  and rounding to 2 decimal places is \<^verbatim>\<open>Math.round(x * 100) / 100\<close>. This holds
  for whatever the engine's sine, cosine and exponential return.
\<close>

theorem scores_are_rounded_dot_products:
  "\<exists>st. attention64 L inputText = Inr st
     \<and> length (d_scores st) = length (tokens inputText)
     \<and> length (d_scaledScores st) = length (tokens inputText)
     \<and> (\<forall>i < length (tokens inputText). \<forall>j < length (tokens inputText).
          length (d_scores st ! i) = length (tokens inputText)
        \<and> length (d_scaledScores st ! i) = length (tokens inputText)
        \<and> (\<exists>q0 q1 k0 k1. d_Q st ! i = [q0, q1] \<and> d_K st ! j = [k0, k1]
             \<and> d_scores st ! i ! j
                 = div64 (Math_round64 (mul64
                     (add64 (add64 (Dbl 0) (mul64 q0 k0)) (mul64 q1 k1)) (Dbl 100))) (Dbl 100)
             \<and> d_scaledScores st ! i ! j
                 = div64 (Math_round64 (mul64
                     (div64 (d_scores st ! i ! j) (dbl (sqrt 2))) (Dbl 100))) (Dbl 100)))"
proof -
  obtain st where st: "attention64 L inputText = Inr st"
     "length (d_scores st) = length (tokens inputText)"
     "length (d_scaledScores st) = length (tokens inputText)"
     "\<forall>i < length (tokens inputText). \<forall>j < length (tokens inputText).
          length (d_scores st ! i) = length (tokens inputText)
        \<and> length (d_scaledScores st ! i) = length (tokens inputText)
        \<and> (\<exists>q0 q1 k0 k1. d_Q st ! i = [q0, q1] \<and> d_K st ! j = [k0, k1]
             \<and> d_scores st ! i ! j
                 = round2_64 (add64 (add64 (Dbl 0) (mul64 q0 k0)) (mul64 q1 k1))
             \<and> d_scaledScores st ! i ! j = scale_score64 (d_scores st ! i ! j))"
    using attention64_scores [of L inputText] by blast
  show ?thesis
    using st by (intro exI [of _ st]) (simp add: round2_64_def scale_score64_def)
qed

section \<open>Rounding error of a double operation\<close>

lemma dbl_near:
  assumes "\<bar>x\<bar> \<le> pow2 k" "- 1022 \<le> k" "k \<le> 1023"
  shows "\<exists>y. dbl x = Dbl y \<and> \<bar>y - x\<bar> \<le> pow2 (k - 53)"
  using dbl_finite [OF assms] rnd_error [OF assms(1,2)] by blast

lemma ilog2_unique:
  assumes "pow2 e \<le> x" "x < pow2 (e + 1)"
  shows "ilog2 x = e"
proof -
  have x: "0 < x"
    using assms(1) pow2_pos [of e] by linarith
  have b: "pow2 (ilog2 x) \<le> x" "x < pow2 (ilog2 x + 1)"
    using ilog2_bounds [OF x] by simp_all
  have "\<not> ilog2 x < e"
  proof
    assume "ilog2 x < e"
    then have "pow2 (ilog2 x + 1) \<le> pow2 e"
      by (intro pow2_mono) simp
    then show False
      using b(2) assms(1) by linarith
  qed
  moreover have "\<not> e < ilog2 x"
  proof
    assume "e < ilog2 x"
    then have "pow2 (e + 1) \<le> pow2 (ilog2 x)"
      by (intro pow2_mono) simp
    then show False
      using b(1) assms(2) by linarith
  qed
  ultimately show ?thesis
    by simp
qed

lemma rne_unique: "\<bar>r - of_int m\<bar> < 1 / 2 \<Longrightarrow> rne r = m"
proof -
  assume a: "\<bar>r - of_int m\<bar> < 1 / 2"
  have f: "of_int \<lfloor>r\<rfloor> \<le> r" "r < of_int \<lfloor>r\<rfloor> + 1"
    by linarith+
  have "\<lfloor>r\<rfloor> = m \<or> \<lfloor>r\<rfloor> = m - 1"
  proof -
    have "of_int m - 1 < r" "r < of_int m + 1"
      using a by linarith+
    then have "m - 1 \<le> \<lfloor>r\<rfloor>" "\<lfloor>r\<rfloor> < m + 1"
      by linarith+
    then show ?thesis
      by linarith
  qed
  then show ?thesis
  proof
    assume m: "\<lfloor>r\<rfloor> = m"
    have "r - of_int \<lfloor>r\<rfloor> < 1 / 2"
      unfolding m using a by linarith
    then show ?thesis
      by (simp add: rne_def nearest_even_def m)
  next
    assume m: "\<lfloor>r\<rfloor> = m - 1"
    have "1 / 2 < r - of_int \<lfloor>r\<rfloor>"
      unfolding m using a by (simp only: of_int_diff of_int_1; linarith)
    then show ?thesis
      by (simp add: rne_def nearest_even_def m)
  qed
qed

lemma rnd_unique:
  assumes "pow2 e \<le> \<bar>x\<bar>" "\<bar>x\<bar> < pow2 (e + 1)" "- 1022 \<le> e"
    and "\<bar>x / pow2 (e - 52) - of_int m\<bar> < 1 / 2"
  shows "rnd x = of_int m * pow2 (e - 52)"
proof -
  have "0 < pow2 e"
    by simp
  then have "0 < \<bar>x\<bar>"
    using assms(1) by linarith
  then have "x \<noteq> 0"
    by simp
  moreover have "ilog2 \<bar>x\<bar> = e"
    using assms(1,2) by (rule ilog2_unique)
  moreover have "rne (x / pow2 (e - 52)) = m"
    using assms(4) by (rule rne_unique)
  ultimately show ?thesis
    using assms(3) by (simp add: rnd_def quantize_def)
qed

lemma sqrt2_double: "dbl (sqrt 2) = Dbl (6369051672525773 / 2 ^ 52)"
proof -
  have lo: "(12738103345051545 / 2 ^ 53 :: real) < sqrt 2"
    by (rule real_less_rsqrt) (simp add: power_divide)
  have hi: "sqrt 2 < (12738103345051547 / 2 ^ 53 :: real)"
    by (rule real_less_lsqrt) (simp_all add: power_divide)
  have "rnd (sqrt 2) = of_int 6369051672525773 * pow2 (0 - 52)"
  proof (rule rnd_unique)
    show "pow2 0 \<le> \<bar>sqrt 2\<bar>"
      by (simp add: pow2_def)
    show "\<bar>sqrt 2\<bar> < pow2 (0 + 1)"
      using hi by (simp add: pow2_def)
    show "- 1022 \<le> (0::int)"
      by simp
    show "\<bar>sqrt 2 / pow2 (0 - 52) - of_int 6369051672525773\<bar> < 1 / 2"
    proof -
      have "sqrt 2 / pow2 (0 - 52) = sqrt 2 * 4503599627370496"
        by (simp add: pow2_def)
      moreover have "12738103345051545 < sqrt 2 * 9007199254740992"
        "sqrt 2 * 9007199254740992 < 12738103345051547"
        using lo hi by simp_all
      ultimately show ?thesis
        by (simp only: of_int_numeral; linarith)
    qed
  qed
  then have r: "rnd (sqrt 2) = 6369051672525773 / 2 ^ 52"
    by (simp add: pow2_def)
  show ?thesis
    by (simp add: dbl_def r finite_or_infinity_small)
qed

lemma accurate_correctly_rounded: "accurate correctly_rounded"
proof -
  have s: "\<bar>rnd (sin x) - sin x\<bar> \<le> 1 / 2 ^ 50" for x :: real
  proof -
    have "\<bar>rnd (sin x) - sin x\<bar> \<le> pow2 (0 - 53)"
      by (rule rnd_error) (simp_all add: pow2_def)
    then show ?thesis
      by (simp add: pow2_def)
  qed
  have c: "\<bar>rnd (cos x) - cos x\<bar> \<le> 1 / 2 ^ 50" for x :: real
  proof -
    have "\<bar>rnd (cos x) - cos x\<bar> \<le> pow2 (0 - 53)"
      by (rule rnd_error) (simp_all add: pow2_def)
    then show ?thesis
      by (simp add: pow2_def)
  qed
  have e: "\<exists>y. dbl (exp x) = Dbl y \<and> \<bar>y - exp x\<bar> \<le> 1 / 2 ^ 50" if "x \<le> 0" for x :: real
  proof -
    have "\<bar>exp x\<bar> \<le> pow2 0"
      using that by (simp add: pow2_def)
    then obtain y where "dbl (exp x) = Dbl y" "\<bar>y - exp x\<bar> \<le> pow2 (0 - 53)"
      using dbl_near [of "exp x" 0] by auto
    then show ?thesis
      by (intro exI [of _ y]) (simp add: pow2_def)
  qed
  show ?thesis
    using s c e by (simp add: accurate_def correctly_rounded_def)
qed

lemma cos_lipschitz: "\<bar>cos x - cos y\<bar> \<le> \<bar>x - y\<bar>" for x y :: real
proof -
  have "\<bar>cos x - cos y\<bar> = 2 * \<bar>sin ((x + y) / 2)\<bar> * \<bar>sin ((y - x) / 2)\<bar>"
    by (simp add: cos_diff_cos abs_mult)
  also have "\<dots> \<le> 2 * 1 * \<bar>(y - x) / 2\<bar>"
    by (intro mult_mono abs_sin_x_le_abs_x) simp_all
  finally show ?thesis
    by simp
qed

lemma round2_64_int:
  assumes "dbl (x * 100) = Dbl p" "of_int n - 1 / 2 \<le> p" "p < of_int n + 1 / 2"
  shows "round2_64 (Dbl x) = dbl (of_int n / 100)"
proof -
  have "\<lfloor>p + 1 / 2\<rfloor> = n"
    using assms(2,3) by (intro floor_unique) linarith+
  then show ?thesis
    by (simp add: round2_64_def mul64_def div64_def assms(1))
qed

lemma lin_component:
  fixes s r a b :: real and n :: int
  assumes s: "\<bar>s - r\<bar> \<le> 1 / 2 ^ 50" and r: "\<bar>r\<bar> \<le> 1"
    and a: "0 \<le> a" "a \<le> 1" and b: "0 \<le> b" "b \<le> 1"
    and lo: "of_int n - 1 / 2 + 1 / 1000000 \<le> (r * a + b) * 100"
    and hi: "(r * a + b) * 100 \<le> of_int n + 1 / 2 - 1 / 1000000"
  shows "round2_64 (add64 (mul64 (Dbl s) (dbl a)) (dbl b)) = dbl (of_int n / 100)"
proof -
  define u :: real where "u = 1 / 2 ^ 50"
  have u: "0 \<le> u" "u \<le> 1 / 1000000000000000"
    by (simp_all add: u_def)
  have su: "\<bar>s - r\<bar> \<le> u"
    using s by (simp only: u_def)
  obtain va where va: "dbl a = Dbl va" "\<bar>va - a\<bar> \<le> pow2 (0 - 53)"
    using dbl_near [of a 0] a by (auto simp: pow2_def)
  obtain vb where vb: "dbl b = Dbl vb" "\<bar>vb - b\<bar> \<le> pow2 (0 - 53)"
    using dbl_near [of b 0] b by (auto simp: pow2_def)
  have k53: "pow2 (0 - 53) \<le> u" and k52: "pow2 (1 - 53) \<le> u" and k51: "pow2 (2 - 53) \<le> u"
    and k44: "pow2 (9 - 53) \<le> 64 * u"
    by (simp_all add: pow2_def u_def)
  have vau: "\<bar>va - a\<bar> \<le> u" and vbu: "\<bar>vb - b\<bar> \<le> u"
    using va(2) vb(2) k53 by linarith+
  have s1: "\<bar>s\<bar> \<le> 1 + u"
    using su r by linarith
  have va1: "\<bar>va\<bar> \<le> 1 + u"
    using vau a by linarith
  have "\<bar>s\<bar> * \<bar>va\<bar> \<le> (1 + u) * (1 + u)"
    using s1 va1 u by (intro mult_mono) simp_all
  also have "\<dots> = 1 + 2 * u + u * u"
    by (simp add: algebra_simps)
  also have "u * u \<le> 1 * u"
    using u by (intro mult_right_mono) simp_all
  finally have "\<bar>s\<bar> * \<bar>va\<bar> \<le> 1 + 3 * u"
    by simp
  then have p1: "\<bar>s * va\<bar> \<le> 2"
    using u by (simp add: abs_mult)
  have "\<bar>s * va\<bar> \<le> pow2 1"
    using p1 by (simp add: pow2_def)
  then obtain t1 where t1: "dbl (s * va) = Dbl t1" "\<bar>t1 - s * va\<bar> \<le> pow2 (1 - 53)"
    using dbl_near [of "s * va" 1] by auto
  have t1u: "\<bar>t1 - s * va\<bar> \<le> u"
    using t1(2) k52 by linarith
  have "\<bar>s\<bar> * \<bar>va - a\<bar> \<le> (1 + u) * u"
    using s1 vau u by (intro mult_mono) simp_all
  also have "\<dots> = u + u * u"
    by (simp add: algebra_simps)
  also have "u * u \<le> 1 * u"
    using u by (intro mult_right_mono) simp_all
  finally have d1: "\<bar>s * (va - a)\<bar> \<le> 2 * u"
    by (simp add: abs_mult)
  have "\<bar>a\<bar> * \<bar>s - r\<bar> \<le> 1 * u"
    using a su by (intro mult_mono) simp_all
  then have d2: "\<bar>a * (s - r)\<bar> \<le> u"
    by (simp add: abs_mult)
  have "s * va - r * a = s * (va - a) + a * (s - r)"
    by (simp add: algebra_simps)
  then have e1: "\<bar>s * va - r * a\<bar> \<le> 3 * u"
    using d1 d2 by linarith
  have p2: "\<bar>t1 + vb\<bar> \<le> 4"
    using t1u p1 vbu b u by linarith
  have "\<bar>t1 + vb\<bar> \<le> pow2 2"
    using p2 by (simp add: pow2_def)
  then obtain t2 where t2: "dbl (t1 + vb) = Dbl t2" "\<bar>t2 - (t1 + vb)\<bar> \<le> pow2 (2 - 53)"
    using dbl_near [of "t1 + vb" 2] by auto
  have t2u: "\<bar>t2 - (t1 + vb)\<bar> \<le> u"
    using t2(2) k51 by linarith
  have p3: "\<bar>t2 * 100\<bar> \<le> 512"
    using t2u p2 u by linarith
  have "\<bar>t2 * 100\<bar> \<le> pow2 9"
    using p3 by (simp add: pow2_def)
  then obtain t3 where t3: "dbl (t2 * 100) = Dbl t3" "\<bar>t3 - t2 * 100\<bar> \<le> pow2 (9 - 53)"
    using dbl_near [of "t2 * 100" 9] by auto
  have t3u: "\<bar>t3 - t2 * 100\<bar> \<le> 64 * u"
    using t3(2) k44 by linarith
  have "t3 - (r * a + b) * 100 \<le> 1 / 2000000 \<and> - (t3 - (r * a + b) * 100) \<le> 1 / 2000000"
  proof -
    define P where "P = s * va"
    define R where "R = r * a"
    have "t3 - t2 * 100 \<le> 64 * u" "- (t3 - t2 * 100) \<le> 64 * u"
      "t2 - (t1 + vb) \<le> u" "- (t2 - (t1 + vb)) \<le> u"
      "t1 - P \<le> u" "- (t1 - P) \<le> u" "P - R \<le> 3 * u" "- (P - R) \<le> 3 * u"
      "vb - b \<le> u" "- (vb - b) \<le> u"
      using t3u t2u t1u e1 vbu by (simp_all only: abs_le_iff P_def R_def)
    then have "t3 - (100 * R + 100 * b) \<le> 664 * u" "- (t3 - (100 * R + 100 * b)) \<le> 664 * u"
      by linarith+
    moreover have "664 * u \<le> 1 / 2000000"
      using u by linarith
    ultimately have "t3 - (100 * R + 100 * b) \<le> 1 / 2000000"
      "- (t3 - (100 * R + 100 * b)) \<le> 1 / 2000000"
      by linarith+
    moreover have "(r * a + b) * 100 = 100 * R + 100 * b"
      by (simp add: R_def)
    ultimately show ?thesis
      by (simp only:)
  qed
  then have close: "\<bar>t3 - (r * a + b) * 100\<bar> \<le> 1 / 2000000"
    by (simp only: abs_le_iff)
  have "round2_64 (Dbl t2) = dbl (of_int n / 100)"
    using t3(1)
  proof (rule round2_64_int)
    show "of_int n - 1 / 2 \<le> t3" "t3 < of_int n + 1 / 2"
      using close lo hi by linarith+
  qed
  then show ?thesis
    by (simp add: va(1) vb(1) mul64_def t1(1) t2(1))
qed

section \<open>The input \<^verbatim>\<open>go come\<close> in double precision\<close>

lemma sin_component:
  assumes "accurate L" "lo \<le> sin x" "sin x \<le> hi"
    and "of_int n - 1 / 2 + 1 / 1000000 \<le> 80 * lo + 20"
    and "80 * hi + 20 \<le> of_int n + 1 / 2 - 1 / 1000000"
  shows "round2_64 (add64 (mul64 (Math_sin64 L (Dbl x)) (dbl 0.8)) (dbl 0.2))
     = dbl (of_int n / 100)"
proof -
  have e: "(sin x * 0.8 + 0.2) * 100 = 80 * sin x + 20"
    by simp
  have "round2_64 (add64 (mul64 (Dbl (sin_of L x)) (dbl 0.8)) (dbl 0.2)) = dbl (of_int n / 100)"
  proof (rule lin_component [where r = "sin x"])
    show "\<bar>sin_of L x - sin x\<bar> \<le> 1 / 2 ^ 50"
      using assms(1) by (simp add: accurate_def)
    show "\<bar>sin x\<bar> \<le> 1"
      by simp
    show "of_int n - 1 / 2 + 1 / 1000000 \<le> (sin x * 0.8 + 0.2) * 100"
      unfolding e using assms(2,4) by linarith
    show "(sin x * 0.8 + 0.2) * 100 \<le> of_int n + 1 / 2 - 1 / 1000000"
      unfolding e using assms(3,5) by linarith
  qed simp_all
  then show ?thesis
    by simp
qed

lemma cos_component:
  assumes "accurate L" "lo \<le> cos x" "cos x \<le> hi"
    and "of_int n - 1 / 2 + 1 / 1000000 \<le> 60 * lo + 40"
    and "60 * hi + 40 \<le> of_int n + 1 / 2 - 1 / 1000000"
  shows "round2_64 (add64 (mul64 (Math_cos64 L (Dbl x)) (dbl 0.6)) (dbl 0.4))
     = dbl (of_int n / 100)"
proof -
  have e: "(cos x * 0.6 + 0.4) * 100 = 60 * cos x + 40"
    by simp
  have "round2_64 (add64 (mul64 (Dbl (cos_of L x)) (dbl 0.6)) (dbl 0.4)) = dbl (of_int n / 100)"
  proof (rule lin_component [where r = "cos x"])
    show "\<bar>cos_of L x - cos x\<bar> \<le> 1 / 2 ^ 50"
      using assms(1) by (simp add: accurate_def)
    show "\<bar>cos x\<bar> \<le> 1"
      by simp
    show "of_int n - 1 / 2 + 1 / 1000000 \<le> (cos x * 0.6 + 0.4) * 100"
      unfolding e using assms(2,4) by linarith
    show "(cos x * 0.6 + 0.4) * 100 \<le> of_int n + 1 / 2 - 1 / 1000000"
      unfolding e using assms(3,5) by linarith
  qed simp_all
  then show ?thesis
    by simp
qed

lemma tokens_go_come: "tokens (js ''go come'') = [js ''go'', js ''come'']"
  by (simp add: tokens_def trim_def isWhitespace_def js_simps)

lemma position_args:
  "mul64 (Dbl 0) (dbl (1 / 2)) = Dbl 0" "mul64 (Dbl 0) (dbl (3 / 10)) = Dbl 0"
  "mul64 (Dbl 1) (dbl (1 / 2)) = Dbl (1 / 2)"
  "mul64 (Dbl 1) (dbl (3 / 10)) = Dbl (5404319552844595 / 18014398509481984)"
  by (simp_all add: mul64_def dbl_eval)

lemma cos_at_double_3_10:
  "95 / 100 \<le> cos (5404319552844595 / 2 ^ 54 :: real)"
  "cos (5404319552844595 / 2 ^ 54 :: real) \<le> 957 / 1000"
proof -
  have "\<bar>cos (5404319552844595 / 2 ^ 54 :: real) - cos (3 / 10)\<bar>
      \<le> \<bar>5404319552844595 / 2 ^ 54 - 3 / 10 :: real\<bar>"
    by (rule cos_lipschitz)
  also have "\<dots> \<le> 1 / 10000"
    by simp
  finally have "\<bar>cos (5404319552844595 / 2 ^ 54 :: real) - cos (3 / 10)\<bar> \<le> 1 / 10000" .
  then show "95 / 100 \<le> cos (5404319552844595 / 2 ^ 54 :: real)"
    "cos (5404319552844595 / 2 ^ 54 :: real) \<le> 957 / 1000"
    using cos_3_10 by linarith+
qed

lemma tail_components:
  "round2_64 (mul64 (Dbl 2) (dbl (1 / 10))) = dbl (1 / 5)"
  "round2_64 (mul64 (Dbl 4) (dbl (1 / 10))) = dbl (2 / 5)"
  "round2_64 (mul64 (Dbl 3) (dbl (1 / 10))) = dbl (3 / 10)"
  "round2_64 (mul64 (Dbl 9) (dbl (1 / 10))) = dbl (9 / 10)"
  by (simp_all add: round2_64_def mul64_def div64_def dbl_eval)

lemma embeddings_go_come:
  assumes "accurate L"
  shows "embeddings64 L [js ''go'', js ''come'']
     = [[dbl 0.2, dbl 1, dbl 0.2, dbl 0.3], [dbl 0.58, dbl 0.97, dbl 0.4, dbl 0.9]]"
proof -
  have s0: "round2_64 (add64 (mul64 (Math_sin64 L (Dbl 0)) (dbl 0.8)) (dbl 0.2)) = dbl (of_int 20 / 100)"
    using assms by (rule sin_component [where lo = 0 and hi = 0]) simp_all
  have c0: "round2_64 (add64 (mul64 (Math_cos64 L (Dbl 0)) (dbl 0.6)) (dbl 0.4)) = dbl (of_int 100 / 100)"
    using assms by (rule cos_component [where lo = 1 and hi = 1]) simp_all
  have s1: "round2_64 (add64 (mul64 (Math_sin64 L (Dbl (1 / 2))) (dbl 0.8)) (dbl 0.2))
      = dbl (of_int 58 / 100)"
    using assms
  proof (rule sin_component [where lo = "479 / 1000" and hi = "12 / 25"])
    show "479 / 1000 \<le> sin (1 / 2 :: real)" "sin (1 / 2 :: real) \<le> 12 / 25"
      using sin_1_2 by simp_all
  qed simp_all
  have c1: "round2_64 (add64 (mul64 (Math_cos64 L (Dbl (5404319552844595 / 2 ^ 54))) (dbl 0.6)) (dbl 0.4))
      = dbl (of_int 97 / 100)"
    using assms
  proof (rule cos_component [where lo = "95 / 100" and hi = "957 / 1000"])
    show "95 / 100 \<le> cos (5404319552844595 / 2 ^ 54 :: real)"
      "cos (5404319552844595 / 2 ^ 54 :: real) \<le> 957 / 1000"
      by (rule cos_at_double_3_10)+
  qed simp_all
  have g: "js ''go'' = [103, 111]" and c: "js ''come'' = [99, 111, 109, 101]"
    by (simp_all add: js_simps)
  show ?thesis
    unfolding embeddings64_def embedToken64_def g c
    using s0 c0 s1 c1
    by (simp add: position_args tail_components charCodeAt0_64_def)
qed

lemma upt_4: "[0..<4] = [0, Suc 0, Suc (Suc 0), Suc (Suc (Suc 0))]"
  by (simp add: upt_rec)

lemma project_go_come:
  "map (\<lambda>Ai. map (\<lambda>j. round2_64 (cell64 (map Number Ai) (rows64 WQ64) j)) [0..<2])
     [[dbl 0.2, dbl 1, dbl 0.2, dbl 0.3], [dbl 0.58, dbl 0.97, dbl 0.4, dbl 0.9]]
   = [[dbl 0.43, dbl 0.83], [dbl 0.95, dbl 0.75]]"
  "map (\<lambda>Ai. map (\<lambda>j. round2_64 (cell64 (map Number Ai) (rows64 WK64) j)) [0..<2])
     [[dbl 0.2, dbl 1, dbl 0.2, dbl 0.3], [dbl 0.58, dbl 0.97, dbl 0.4, dbl 0.9]]
   = [[dbl 0.05, dbl 0.69], [dbl 0.39, dbl 1.34]]"
  by (simp_all add: cell64_def rows64_def WQ64_def WK64_def at64_def num64_def upt_2 upt_4
      round2_64_def mul64_def div64_def dbl_eval)

lemma go_come_QK:
  assumes "accurate L"
  shows "\<exists>st. attention64 L (js ''go come'') = Inr st
     \<and> d_Q st = [[dbl 0.43, dbl 0.83], [dbl 0.95, dbl 0.75]]
     \<and> d_K st = [[dbl 0.05, dbl 0.69], [dbl 0.39, dbl 1.34]]"
proof -
  obtain st where st: "attention64 L (js ''go come'') = Inr st"
     "d_Q st = map (\<lambda>Ai. map (\<lambda>j. round2_64 (cell64 (map Number Ai) (rows64 WQ64) j)) [0..<2])
                   (embeddings64 L (tokens (js ''go come'')))"
     "d_K st = map (\<lambda>Ai. map (\<lambda>j. round2_64 (cell64 (map Number Ai) (rows64 WK64) j)) [0..<2])
                   (embeddings64 L (tokens (js ''go come'')))"
    using attention64_scores [of L "js ''go come''"] by blast
  have "d_Q st = [[dbl 0.43, dbl 0.83], [dbl 0.95, dbl 0.75]]"
    unfolding st(2) tokens_go_come embeddings_go_come [OF assms] by (rule project_go_come)
  moreover have "d_K st = [[dbl 0.05, dbl 0.69], [dbl 0.39, dbl 1.34]]"
    unfolding st(3) tokens_go_come embeddings_go_come [OF assms] by (rule project_go_come)
  ultimately show ?thesis
    using st(1) by blast
qed

lemma go_come_score_1_0:
  "div64 (Math_round64 (mul64
      (add64 (add64 (Dbl 0) (mul64 (dbl 0.95) (dbl 0.05))) (mul64 (dbl 0.75) (dbl 0.69)))
      (Dbl 100))) (Dbl 100) = dbl 0.56"
  by (simp add: mul64_def div64_def dbl_eval)

lemma go_come_scaled_1_0:
  "div64 (Math_round64 (mul64 (div64 (dbl 0.56) (dbl (sqrt 2))) (Dbl 100))) (Dbl 100) = dbl 0.4"
  unfolding sqrt2_double by (simp add: mul64_def div64_def dbl_eval)

theorem scores_are_rounded_dot_products_witness:
  "\<exists>st. attention64 correctly_rounded (js ''go come'') = Inr st
     \<and> d_Q st ! 1 = [dbl 0.95, dbl 0.75] \<and> d_K st ! 0 = [dbl 0.05, dbl 0.69]
     \<and> d_scores st ! 1 ! 0 = dbl 0.56 \<and> d_scaledScores st ! 1 ! 0 = dbl 0.4"
proof -
  obtain st where st: "attention64 correctly_rounded (js ''go come'') = Inr st"
    and f: "\<forall>i < length (tokens (js ''go come'')). \<forall>j < length (tokens (js ''go come'')).
          length (d_scores st ! i) = length (tokens (js ''go come''))
        \<and> length (d_scaledScores st ! i) = length (tokens (js ''go come''))
        \<and> (\<exists>q0 q1 k0 k1. d_Q st ! i = [q0, q1] \<and> d_K st ! j = [k0, k1]
             \<and> d_scores st ! i ! j
                 = div64 (Math_round64 (mul64
                     (add64 (add64 (Dbl 0) (mul64 q0 k0)) (mul64 q1 k1)) (Dbl 100))) (Dbl 100)
             \<and> d_scaledScores st ! i ! j
                 = div64 (Math_round64 (mul64
                     (div64 (d_scores st ! i ! j) (dbl (sqrt 2))) (Dbl 100))) (Dbl 100))"
    using scores_are_rounded_dot_products [of correctly_rounded "js ''go come''"] by blast
  obtain st' where st': "attention64 correctly_rounded (js ''go come'') = Inr st'"
     "d_Q st' = [[dbl 0.43, dbl 0.83], [dbl 0.95, dbl 0.75]]"
     "d_K st' = [[dbl 0.05, dbl 0.69], [dbl 0.39, dbl 1.34]]"
    using go_come_QK [OF accurate_correctly_rounded] by blast
  have eq: "st' = st"
    using st st'(1) by simp
  have Q: "d_Q st ! 1 = [dbl 0.95, dbl 0.75]" and K: "d_K st ! 0 = [dbl 0.05, dbl 0.69]"
    using st'(2,3) unfolding eq by simp_all
  have "(1::nat) < length (tokens (js ''go come''))" "(0::nat) < length (tokens (js ''go come''))"
    by (simp_all add: tokens_go_come)
  then obtain q0 q1 k0 k1 where e: "d_Q st ! 1 = [q0, q1]" "d_K st ! 0 = [k0, k1]"
      "d_scores st ! 1 ! 0 = div64 (Math_round64 (mul64
          (add64 (add64 (Dbl 0) (mul64 q0 k0)) (mul64 q1 k1)) (Dbl 100))) (Dbl 100)"
      "d_scaledScores st ! 1 ! 0 = div64 (Math_round64 (mul64
          (div64 (d_scores st ! 1 ! 0) (dbl (sqrt 2))) (Dbl 100))) (Dbl 100)"
    using f by blast
  have v: "q0 = dbl 0.95" "q1 = dbl 0.75" "k0 = dbl 0.05" "k1 = dbl 0.69"
    using e(1,2) Q K by simp_all
  have s: "d_scores st ! 1 ! 0 = dbl 0.56"
    unfolding e(3) v by (rule go_come_score_1_0)
  have "d_scaledScores st ! 1 ! 0 = dbl 0.4"
    unfolding e(4) s by (rule go_come_scaled_1_0)
  then show ?thesis
    using st Q K s by blast
qed


end
